theory Spec2Isabelle
  imports Main
begin

section \<open>Go values used by package jctx\<close>

text \<open>
  A Go byte slice is a list of bytes (\<^typ>\<open>char\<close> is a byte). \<open>json.RawMessage\<close> is a named
  \<open>[]byte\<close>; the code tests such slices against \<open>nil\<close>, so the nil slice (\<open>None\<close>) is
  kept apart from an allocated slice (\<open>Some bs\<close>, possibly of length 0).
\<close>

type_synonym RawMessage = "string option"

definition len :: "RawMessage \<Rightarrow> nat" where
  "len m = (case m of None \<Rightarrow> 0 | Some bs \<Rightarrow> length bs)"

definition bytes_of :: "RawMessage \<Rightarrow> string" where
  "bytes_of m = (case m of None \<Rightarrow> [] | Some bs \<Rightarrow> bs)"

text \<open>
  \<open>time.Time\<close>: an instant with nanosecond resolution together with a location. The
  instant is the number of nanoseconds since January 1, year 1, 00:00:00 UTC (the zero
  \<open>Time\<close>); the location is reduced to its offset east of UTC in seconds at that instant,
  which is all that formatting reads.
\<close>

record Time =
  abs_ns :: int
  zone :: int

definition UTC :: "Time \<Rightarrow> Time" where
  "UTC t = t\<lparr>zone := 0\<rparr>"

definition IsZero :: "Time \<Rightarrow> bool" where
  "IsZero t = (abs_ns t = 0)"

definition Before :: "Time \<Rightarrow> Time \<Rightarrow> bool" where
  "Before t u = (abs_ns t < abs_ns u)"

definition Equal :: "Time \<Rightarrow> Time \<Rightarrow> bool" where
  "Equal t u = (abs_ns t = abs_ns u)"

datatype error =
    ErrNoMetadata
  | ErrInvalidContextVersion string
  | SyntaxError
  | UnmarshalTypeError string
  | MarshalerError string
  | UnsupportedTypeError
  | TimeParseError

text \<open>
  \<open>context.Context\<close>: an immutable chain of derived contexts. \<open>metadataKey\<close> is an
  unexported type, so the only values ever stored under it are the \<open>json.RawMessage\<close>
  values this package stores; such a node is \<open>metadataCtx\<close>. \<open>valueCtx\<close> is a value
  that some other package attached under a key of its own.
\<close>

datatype Context =
    Background
  | valueCtx Context string string
  | metadataCtx Context RawMessage
  | cancelCtx Context
  | timerCtx Context Time

text \<open>\<open>ctx.Deadline()\<close>: the deadline of the nearest timer, if any.\<close>

fun Context_Deadline :: "Context \<Rightarrow> Time option" where
  "Context_Deadline Background = None"
| "Context_Deadline (valueCtx parent k v) = Context_Deadline parent"
| "Context_Deadline (metadataCtx parent m) = Context_Deadline parent"
| "Context_Deadline (cancelCtx parent) = Context_Deadline parent"
| "Context_Deadline (timerCtx parent d) = Some d"

text \<open>\<open>ctx.Value(metadataKey{})\<close>: \<open>None\<close> is the nil interface value.\<close>

fun Value_metadataKey :: "Context \<Rightarrow> RawMessage option" where
  "Value_metadataKey Background = None"
| "Value_metadataKey (valueCtx parent k v) = Value_metadataKey parent"
| "Value_metadataKey (metadataCtx parent m) = Some m"
| "Value_metadataKey (cancelCtx parent) = Value_metadataKey parent"
| "Value_metadataKey (timerCtx parent d) = Value_metadataKey parent"

definition WithValue_metadataKey :: "Context \<Rightarrow> RawMessage \<Rightarrow> Context" where
  "WithValue_metadataKey parent m = metadataCtx parent m"

text \<open>
  \<open>context.WithDeadline(parent, d)\<close>: when the parent's deadline is already earlier
  than \<open>d\<close> the result is only a cancellable child that keeps the parent's deadline.
\<close>

definition WithDeadline :: "Context \<Rightarrow> Time \<Rightarrow> Context" where
  "WithDeadline parent d =
     (case Context_Deadline parent of
        Some cur \<Rightarrow> if Before cur d then cancelCtx parent else timerCtx parent d
      | None \<Rightarrow> timerCtx parent d)"

text \<open>Whether some ancestor of the context (or itself) was made by attaching metadata.\<close>

fun ever_attached :: "Context \<Rightarrow> bool" where
  "ever_attached Background = False"
| "ever_attached (valueCtx parent k v) = ever_attached parent"
| "ever_attached (metadataCtx parent m) = True"
| "ever_attached (cancelCtx parent) = ever_attached parent"
| "ever_attached (timerCtx parent d) = ever_attached parent"

section \<open>encoding/json: the scanner\<close>

datatype pstate = parseObjectKey | parseObjectValue | parseArrayValue

datatype sstate =
    BeginValueOrEmpty | BeginValue | BeginStringOrEmpty | BeginString
  | EndValue | EndTop
  | InString | InStringEsc | InStringEscU | InStringEscU1 | InStringEscU12 | InStringEscU123
  | Neg | St1 | St0 | Dot | Dot0 | StE | ESign | E0
  | StT | Tr | Tru | StF | Fa | Fal | Fals | StN | Nu | Nul
  | Error

datatype opcode =
    scanContinue | scanBeginLiteral | scanBeginObject | scanObjectKey | scanObjectValue
  | scanEndObject | scanBeginArray | scanArrayValue | scanEndArray
  | scanSkipSpace | scanEnd | scanError

datatype scanner = Scanner sstate "pstate list"

definition isSpace :: "char \<Rightarrow> bool" where
  "isSpace c = (c = CHR '' '' \<or> c = CHR 0x09 \<or> c = CHR 0x0D \<or> c = CHR 0x0A)"

definition isDigit :: "char \<Rightarrow> bool" where
  "isDigit c = (c \<in> set ''0123456789'')"

definition isDigit19 :: "char \<Rightarrow> bool" where
  "isDigit19 c = (c \<in> set ''123456789'')"

definition isHex :: "char \<Rightarrow> bool" where
  "isHex c = (c \<in> set ''0123456789abcdefABCDEF'')"

definition scan_error :: "pstate list \<Rightarrow> opcode \<times> scanner" where
  "scan_error ps = (scanError, Scanner Error ps)"

definition continue :: "sstate \<Rightarrow> pstate list \<Rightarrow> opcode \<times> scanner" where
  "continue st ps = (scanContinue, Scanner st ps)"

definition pushParseState ::
    "nat \<Rightarrow> pstate \<Rightarrow> opcode \<Rightarrow> sstate \<Rightarrow> pstate list \<Rightarrow> opcode \<times> scanner" where
  "pushParseState maxDepth newParseState successState st ps =
     (if length (newParseState # ps) \<le> maxDepth
      then (successState, Scanner st (newParseState # ps))
      else scan_error (newParseState # ps))"

definition popParseState :: "pstate list \<Rightarrow> scanner" where
  "popParseState ps = (if tl ps = [] then Scanner EndTop [] else Scanner EndValue (tl ps))"

definition stateEndTop :: "char \<Rightarrow> pstate list \<Rightarrow> opcode \<times> scanner" where
  "stateEndTop c ps = (if isSpace c then (scanEnd, Scanner EndTop ps) else (scanEnd, Scanner Error ps))"

definition stateEndValue :: "char \<Rightarrow> pstate list \<Rightarrow> opcode \<times> scanner" where
  "stateEndValue c ps =
     (case ps of
        [] \<Rightarrow> stateEndTop c ps
      | p # rest \<Rightarrow>
          if isSpace c then (scanSkipSpace, Scanner EndValue ps)
          else (case p of
                  parseObjectKey \<Rightarrow>
                    if c = CHR '':'' then (scanObjectKey, Scanner BeginValue (parseObjectValue # rest))
                    else scan_error ps
                | parseObjectValue \<Rightarrow>
                    if c = CHR '','' then (scanObjectValue, Scanner BeginString (parseObjectKey # rest))
                    else if c = CHR ''}'' then (scanEndObject, popParseState ps)
                    else scan_error ps
                | parseArrayValue \<Rightarrow>
                    if c = CHR '','' then (scanArrayValue, Scanner BeginValue ps)
                    else if c = CHR '']'' then (scanEndArray, popParseState ps)
                    else scan_error ps))"

definition stateBeginValue :: "nat \<Rightarrow> char \<Rightarrow> pstate list \<Rightarrow> opcode \<times> scanner" where
  "stateBeginValue maxDepth c ps =
     (if isSpace c then (scanSkipSpace, Scanner BeginValue ps)
      else if c = CHR ''{'' then pushParseState maxDepth parseObjectKey scanBeginObject BeginStringOrEmpty ps
      else if c = CHR ''['' then pushParseState maxDepth parseArrayValue scanBeginArray BeginValueOrEmpty ps
      else if c = CHR 0x22 then (scanBeginLiteral, Scanner InString ps)
      else if c = CHR ''-'' then (scanBeginLiteral, Scanner Neg ps)
      else if c = CHR ''0'' then (scanBeginLiteral, Scanner St0 ps)
      else if c = CHR ''t'' then (scanBeginLiteral, Scanner StT ps)
      else if c = CHR ''f'' then (scanBeginLiteral, Scanner StF ps)
      else if c = CHR ''n'' then (scanBeginLiteral, Scanner StN ps)
      else if isDigit19 c then (scanBeginLiteral, Scanner St1 ps)
      else scan_error ps)"

definition stateBeginValueOrEmpty :: "nat \<Rightarrow> char \<Rightarrow> pstate list \<Rightarrow> opcode \<times> scanner" where
  "stateBeginValueOrEmpty maxDepth c ps =
     (if isSpace c then (scanSkipSpace, Scanner BeginValueOrEmpty ps)
      else if c = CHR '']'' then stateEndValue c ps
      else stateBeginValue maxDepth c ps)"

definition stateBeginString :: "char \<Rightarrow> pstate list \<Rightarrow> opcode \<times> scanner" where
  "stateBeginString c ps =
     (if isSpace c then (scanSkipSpace, Scanner BeginString ps)
      else if c = CHR 0x22 then (scanBeginLiteral, Scanner InString ps)
      else scan_error ps)"

definition stateBeginStringOrEmpty :: "char \<Rightarrow> pstate list \<Rightarrow> opcode \<times> scanner" where
  "stateBeginStringOrEmpty c ps =
     (if isSpace c then (scanSkipSpace, Scanner BeginStringOrEmpty ps)
      else if c = CHR ''}'' then stateEndValue c (parseObjectValue # tl ps)
      else stateBeginString c ps)"

definition stateInString :: "char \<Rightarrow> pstate list \<Rightarrow> opcode \<times> scanner" where
  "stateInString c ps =
     (if c = CHR 0x22 then continue EndValue ps
      else if c = CHR 0x5C then continue InStringEsc ps
      else if (of_char c :: nat) < 0x20 then scan_error ps
      else continue InString ps)"

definition stateInStringEsc :: "char \<Rightarrow> pstate list \<Rightarrow> opcode \<times> scanner" where
  "stateInStringEsc c ps =
     (if c \<in> set [CHR ''b'', CHR ''f'', CHR ''n'', CHR ''r'', CHR ''t'', CHR 0x5C, CHR ''/'', CHR 0x22]
      then continue InString ps
      else if c = CHR ''u'' then continue InStringEscU ps
      else scan_error ps)"

definition expect :: "bool \<Rightarrow> sstate \<Rightarrow> pstate list \<Rightarrow> opcode \<times> scanner" where
  "expect ok st ps = (if ok then continue st ps else scan_error ps)"

definition state0 :: "char \<Rightarrow> pstate list \<Rightarrow> opcode \<times> scanner" where
  "state0 c ps =
     (if c = CHR ''.'' then continue Dot ps
      else if c = CHR ''e'' \<or> c = CHR ''E'' then continue StE ps
      else stateEndValue c ps)"

definition state1 :: "char \<Rightarrow> pstate list \<Rightarrow> opcode \<times> scanner" where
  "state1 c ps = (if isDigit c then continue St1 ps else state0 c ps)"

definition stateNeg :: "char \<Rightarrow> pstate list \<Rightarrow> opcode \<times> scanner" where
  "stateNeg c ps =
     (if c = CHR ''0'' then continue St0 ps
      else if isDigit19 c then continue St1 ps
      else scan_error ps)"

definition stateDot0 :: "char \<Rightarrow> pstate list \<Rightarrow> opcode \<times> scanner" where
  "stateDot0 c ps =
     (if isDigit c then continue Dot0 ps
      else if c = CHR ''e'' \<or> c = CHR ''E'' then continue StE ps
      else stateEndValue c ps)"

definition stateESign :: "char \<Rightarrow> pstate list \<Rightarrow> opcode \<times> scanner" where
  "stateESign c ps = expect (isDigit c) E0 ps"

definition stateE :: "char \<Rightarrow> pstate list \<Rightarrow> opcode \<times> scanner" where
  "stateE c ps = (if c = CHR ''+'' \<or> c = CHR ''-'' then continue ESign ps else stateESign c ps)"

definition stateE0 :: "char \<Rightarrow> pstate list \<Rightarrow> opcode \<times> scanner" where
  "stateE0 c ps = (if isDigit c then continue E0 ps else stateEndValue c ps)"

text \<open>\<open>s.step(s, c)\<close>: one byte through the state function the scanner is in.\<close>

fun scan_step :: "nat \<Rightarrow> scanner \<Rightarrow> char \<Rightarrow> opcode \<times> scanner" where
  "scan_step maxDepth (Scanner st ps) c =
     (case st of
        BeginValueOrEmpty \<Rightarrow> stateBeginValueOrEmpty maxDepth c ps
      | BeginValue \<Rightarrow> stateBeginValue maxDepth c ps
      | BeginStringOrEmpty \<Rightarrow> stateBeginStringOrEmpty c ps
      | BeginString \<Rightarrow> stateBeginString c ps
      | EndValue \<Rightarrow> stateEndValue c ps
      | EndTop \<Rightarrow> stateEndTop c ps
      | InString \<Rightarrow> stateInString c ps
      | InStringEsc \<Rightarrow> stateInStringEsc c ps
      | InStringEscU \<Rightarrow> expect (isHex c) InStringEscU1 ps
      | InStringEscU1 \<Rightarrow> expect (isHex c) InStringEscU12 ps
      | InStringEscU12 \<Rightarrow> expect (isHex c) InStringEscU123 ps
      | InStringEscU123 \<Rightarrow> expect (isHex c) InString ps
      | Neg \<Rightarrow> stateNeg c ps
      | St1 \<Rightarrow> state1 c ps
      | St0 \<Rightarrow> state0 c ps
      | Dot \<Rightarrow> expect (isDigit c) Dot0 ps
      | Dot0 \<Rightarrow> stateDot0 c ps
      | StE \<Rightarrow> stateE c ps
      | ESign \<Rightarrow> stateESign c ps
      | E0 \<Rightarrow> stateE0 c ps
      | StT \<Rightarrow> expect (c = CHR ''r'') Tr ps
      | Tr \<Rightarrow> expect (c = CHR ''u'') Tru ps
      | Tru \<Rightarrow> expect (c = CHR ''e'') EndValue ps
      | StF \<Rightarrow> expect (c = CHR ''a'') Fa ps
      | Fa \<Rightarrow> expect (c = CHR ''l'') Fal ps
      | Fal \<Rightarrow> expect (c = CHR ''s'') Fals ps
      | Fals \<Rightarrow> expect (c = CHR ''e'') EndValue ps
      | StN \<Rightarrow> expect (c = CHR ''u'') Nu ps
      | Nu \<Rightarrow> expect (c = CHR ''l'') Nul ps
      | Nul \<Rightarrow> expect (c = CHR ''l'') EndValue ps
      | Error \<Rightarrow> (scanError, Scanner Error ps))"

text \<open>\<open>s.eof()\<close>.\<close>

fun eof :: "nat \<Rightarrow> scanner \<Rightarrow> opcode" where
  "eof maxDepth (Scanner st ps) =
     (if st = Error then scanError
      else if st = EndTop then scanEnd
      else (case scan_step maxDepth (Scanner st ps) CHR '' '' of
              (opc, Scanner st' ps') \<Rightarrow> if st' = EndTop then scanEnd else scanError))"

text \<open>The loop of \<open>checkValid\<close>: \<open>None\<close> when a step returns \<open>scanError\<close>.\<close>

fun scan_bytes :: "nat \<Rightarrow> scanner \<Rightarrow> string \<Rightarrow> scanner option" where
  "scan_bytes maxDepth s [] = Some s"
| "scan_bytes maxDepth s (c # cs) =
     (case scan_step maxDepth s c of
        (opc, s') \<Rightarrow> if opc = scanError then None else scan_bytes maxDepth s' cs)"

definition checkValid :: "nat \<Rightarrow> string \<Rightarrow> bool" where
  "checkValid maxDepth data =
     (case scan_bytes maxDepth (Scanner BeginValue []) data of
        None \<Rightarrow> False
      | Some s \<Rightarrow> eof maxDepth s \<noteq> scanError)"

definition maxNestingDepth :: nat where
  "maxNestingDepth = 10000"


section \<open>time: the calendar, and RFC 3339 text\<close>

text \<open>
  The proleptic Gregorian calendar as package \<open>time\<close> computes it. Days are counted
  from January 1 of year 1 (day 0); divisions round towards minus infinity, so years
  before year 1 are covered as well.
\<close>

definition isLeap :: "int \<Rightarrow> bool" where
  "isLeap year = (year mod 4 = 0 \<and> (year mod 100 \<noteq> 0 \<or> year mod 400 = 0))"

definition daysBefore :: "nat \<Rightarrow> int" where
  "daysBefore m = [0, 31, 59, 90, 120, 151, 181, 212, 243, 273, 304, 334, 365] ! m"

definition daysIn :: "nat \<Rightarrow> int \<Rightarrow> int" where
  "daysIn m year = (if m = 2 \<and> isLeap year then 29 else daysBefore m - daysBefore (m - 1))"

definition daysSinceEpoch :: "int \<Rightarrow> int" where
  "daysSinceEpoch year =
     365 * (year - 1) + (year - 1) div 4 - (year - 1) div 100 + (year - 1) div 400"

text \<open>\<open>absDate\<close>, first half: the year and the day within the year (from 0).\<close>

definition absYear :: "int \<Rightarrow> int \<times> int" where
  "absYear days =
     (let n400 = days div 146097;
          d1 = days - 146097 * n400;
          n100 = d1 div 36524;
          n100' = n100 - n100 div 4;
          d2 = d1 - 36524 * n100';
          n4 = d2 div 1461;
          d3 = d2 - 1461 * n4;
          n1 = d3 div 365;
          n1' = n1 - n1 div 4;
          yday = d3 - 365 * n1'
      in (400 * n400 + 100 * n100' + 4 * n4 + n1' + 1, yday))"

text \<open>\<open>absDate\<close>, second half: the month (1 to 12) and the day of the month (from 1).\<close>

definition monthDay :: "int \<Rightarrow> int \<Rightarrow> nat \<times> int" where
  "monthDay year yday =
     (if isLeap year \<and> yday = 31 + 29 - 1 then (2, 29)
      else
        (let day = (if isLeap year \<and> yday > 31 + 29 - 1 then yday - 1 else yday);
             m = nat (day div 31);
             e = daysBefore (m + 1)
         in if day \<ge> e then (m + 2, day - e + 1) else (m + 1, day - daysBefore m + 1)))"

text \<open>\<open>t.Year()\<close>: the year in which the instant falls in the zone of \<open>t\<close>.\<close>

definition Year :: "Time \<Rightarrow> int" where
  "Year t = fst (absYear ((abs_ns t div 1000000000 + zone t) div 86400))"

text \<open>
  \<open>time.Date(year, month, day, hour, min, sec, 0, UTC)\<close> for arguments in their normal
  ranges, in seconds since the zero time.
\<close>

definition dateSeconds :: "int \<Rightarrow> nat \<Rightarrow> int \<Rightarrow> int \<Rightarrow> int \<Rightarrow> int \<Rightarrow> int" where
  "dateSeconds year m day hour mi sec =
     (daysSinceEpoch year + daysBefore (m - 1) + (if isLeap year \<and> m \<ge> 3 then 1 else 0) + (day - 1))
       * 86400 + hour * 3600 + mi * 60 + sec"

subsection \<open>Decimal digits\<close>

definition digit :: "int \<Rightarrow> char" where
  "digit n = char_of (48 + n)"

definition digitVal :: "char \<Rightarrow> int" where
  "digitVal c = of_char c - 48"

definition pad2 :: "int \<Rightarrow> string" where
  "pad2 n = [digit (n div 10 mod 10), digit (n mod 10)]"

definition pad4 :: "int \<Rightarrow> string" where
  "pad4 n = [digit (n div 1000 mod 10), digit (n div 100 mod 10), digit (n div 10 mod 10), digit (n mod 10)]"

definition pad9 :: "int \<Rightarrow> string" where
  "pad9 n = [digit (n div 100000000 mod 10), digit (n div 10000000 mod 10),
             digit (n div 1000000 mod 10), digit (n div 100000 mod 10), digit (n div 10000 mod 10),
             digit (n div 1000 mod 10), digit (n div 100 mod 10), digit (n div 10 mod 10),
             digit (n mod 10)]"

text \<open>The fraction of a second in the layout \<open>.999999999\<close>: trailing zeros are dropped,
  and so is the point when nothing is left.\<close>

definition formatNano :: "int \<Rightarrow> string" where
  "formatNano ns =
     (let ds = rev (dropWhile (\<lambda>c. c = CHR ''0'') (rev (pad9 ns)))
      in if ds = [] then [] else CHR ''.'' # ds)"

text \<open>\<open>parseUint\<close> of \<open>parseRFC3339\<close>: an unsigned decimal number within a range.\<close>

definition atoi :: "string \<Rightarrow> int" where
  "atoi s = foldl (\<lambda>x c. x * 10 + digitVal c) 0 s"

definition parseUint :: "string \<Rightarrow> int \<Rightarrow> int \<Rightarrow> int option" where
  "parseUint s lo hi =
     (if list_all isDigit s \<and> lo \<le> atoi s \<and> atoi s \<le> hi then Some (atoi s) else None)"

text \<open>\<open>parseNanoseconds\<close> on the digits after the point: nine digits count, fewer are
  scaled up.\<close>

definition parseNanoseconds :: "string \<Rightarrow> int" where
  "parseNanoseconds ds = atoi (take 9 ds) * 10 ^ (9 - length (take 9 ds))"

subsection \<open>\<open>Time.MarshalJSON\<close> and \<open>Time.UnmarshalJSON\<close>\<close>

text \<open>The zone of the layout \<open>Z07:00\<close>: \<open>Z\<close> for offset 0, else sign, hours and minutes
  (Go's division of the offset by 60 truncates towards zero).\<close>

definition formatZone :: "int \<Rightarrow> string" where
  "formatZone off =
     (if off = 0 then ''Z''
      else (let zm = \<bar>off\<bar> div 60
            in (if off < 0 \<and> zm \<noteq> 0 then CHR ''-'' else CHR ''+'') # pad2 (zm div 60) @ CHR '':'' # pad2 (zm mod 60)))"

text \<open>
  \<open>t.MarshalJSON()\<close>: the time in the layout \<open>RFC3339Nano\<close> between double quotes. It
  fails for a year outside 0 to 9999 and for a zone whose hours do not fit two digits
  below 24.
\<close>

definition Time_MarshalJSON :: "Time \<Rightarrow> error + string" where
  "Time_MarshalJSON t =
     (let secs = abs_ns t div 1000000000 + zone t;
          days = secs div 86400;
          rem = secs mod 86400;
          (year, yday) = absYear days;
          (m, day) = monthDay year yday
      in if year < 0 \<or> 9999 < year then Inl (MarshalerError ''Time.MarshalJSON: year outside of range [0,9999]'')
         else if 24 \<le> \<bar>zone t\<bar> div 3600
           then Inl (MarshalerError ''Time.MarshalJSON: timezone hour outside of range [0,23]'')
         else Inr ([CHR 0x22] @ pad4 year @ ''-'' @ pad2 (int m) @ ''-'' @ pad2 day @ ''T''
                   @ pad2 (rem div 3600) @ '':'' @ pad2 (rem div 60 mod 60) @ '':'' @ pad2 (rem mod 60)
                   @ formatNano (abs_ns t mod 1000000000) @ formatZone (zone t) @ [CHR 0x22]))"

text \<open>The zone at the end of an RFC 3339 time: the offset in seconds.\<close>

definition parseZone :: "string \<Rightarrow> int option" where
  "parseZone s =
     (if s = ''Z'' then Some 0
      else if length s \<noteq> 6 then None
      else (case (parseUint (take 2 (drop 1 s)) 0 23, parseUint (take 2 (drop 4 s)) 0 59) of
              (Some hr, Some mm) \<Rightarrow>
                if (s ! 0 = CHR ''-'' \<or> s ! 0 = CHR ''+'') \<and> s ! 3 = CHR '':''
                then Some ((if s ! 0 = CHR ''-'' then - 1 else 1) * ((hr * 60 + mm) * 60))
                else None
            | _ \<Rightarrow> None))"

text \<open>
  \<open>parseRFC3339\<close>: date, time of day, an optional fraction of a second, and the zone.
\<close>

definition parseRFC3339 :: "string \<Rightarrow> Time option" where
  "parseRFC3339 s =
     (if length s < 19 then None
      else (case parseUint (take 4 s) 0 9999 of None \<Rightarrow> None | Some year \<Rightarrow>
           (case parseUint (take 2 (drop 5 s)) 1 12 of None \<Rightarrow> None | Some month \<Rightarrow>
           (case parseUint (take 2 (drop 8 s)) 1 (daysIn (nat month) year) of None \<Rightarrow> None | Some day \<Rightarrow>
           (case parseUint (take 2 (drop 11 s)) 0 23 of None \<Rightarrow> None | Some hour \<Rightarrow>
           (case parseUint (take 2 (drop 14 s)) 0 59 of None \<Rightarrow> None | Some mi \<Rightarrow>
           (case parseUint (take 2 (drop 17 s)) 0 59 of None \<Rightarrow> None | Some sec \<Rightarrow>
             if \<not> (s ! 4 = CHR ''-'' \<and> s ! 7 = CHR ''-'' \<and> s ! 10 = CHR ''T'' \<and> s ! 13 = CHR '':''
                   \<and> s ! 16 = CHR '':'') then None
             else
               (let r = drop 19 s;
                    hasFrac = (length r \<ge> 2 \<and> r ! 0 = CHR ''.'' \<and> isDigit (r ! 1));
                    ds = (if hasFrac then takeWhile isDigit (drop 1 r) else []);
                    nsec = (if hasFrac then parseNanoseconds ds else 0);
                    z = (if hasFrac then dropWhile isDigit (drop 1 r) else r)
                in (case parseZone z of
                      None \<Rightarrow> None
                    | Some off \<Rightarrow>
                        Some \<lparr>abs_ns = (dateSeconds year (nat month) day hour mi sec - off) * 1000000000 + nsec,
                              zone = off\<rparr>)))))))))"

text \<open>
  \<open>time.Parse(RFC3339, s)\<close> is a parameter of the model, \<open>time_Parse\<close> below: the
  parser that works from the layout accepts more than RFC 3339 allows (an hour of one
  digit, a comma before the fraction of a second, a zone of 24 hours), and what exactly
  it accepts has changed between releases of Go.
\<close>

type_synonym TimeParser = "string \<Rightarrow> error + Time"

text \<open>
  \<open>t.UnmarshalJSON(data)\<close> for \<open>data\<close> other than \<open>null\<close>: the bytes between the
  double quotes go to \<open>parseRFC3339\<close>, and when that refuses them, to
  \<open>time.Parse(RFC3339, s)\<close> (\<open>parseStrictRFC3339\<close> returns what either of them
  accepts).
\<close>

definition Time_UnmarshalJSON :: "TimeParser \<Rightarrow> string \<Rightarrow> error + Time" where
  "Time_UnmarshalJSON time_Parse data =
     (if length data < 2 \<or> hd data \<noteq> CHR 0x22 \<or> last data \<noteq> CHR 0x22 then Inl TimeParseError
      else (case parseRFC3339 (butlast (tl data)) of
              Some t \<Rightarrow> Inr t
            | None \<Rightarrow> time_Parse (butlast (tl data))))"

section \<open>encoding/json: strings\<close>

text \<open>
  UTF-8 as \<open>utf8.DecodeRune\<close> reads it: the length of the well-formed encoding of a
  rune from \<open>0x80\<close> up at the head of the bytes, or 0 when the bytes are not one.
\<close>

definition inRange :: "char \<Rightarrow> nat \<Rightarrow> nat \<Rightarrow> bool" where
  "inRange c lo hi = (lo \<le> of_char c \<and> (of_char c :: nat) \<le> hi)"

definition utf8_size :: "string \<Rightarrow> nat" where
  "utf8_size s =
     (case s of
        [] \<Rightarrow> 0
      | c # r \<Rightarrow>
          if inRange c 0xC2 0xDF then (if 1 \<le> length r \<and> inRange (r ! 0) 0x80 0xBF then 2 else 0)
          else if inRange c 0xE0 0xEF then
            (if 2 \<le> length r
                \<and> inRange (r ! 0) (if c = CHR 0xE0 then 0xA0 else 0x80) (if c = CHR 0xED then 0x9F else 0xBF)
                \<and> inRange (r ! 1) 0x80 0xBF then 3 else 0)
          else if inRange c 0xF0 0xF4 then
            (if 3 \<le> length r
                \<and> inRange (r ! 0) (if c = CHR 0xF0 then 0x90 else 0x80) (if c = CHR 0xF4 then 0x8F else 0xBF)
                \<and> inRange (r ! 1) 0x80 0xBF \<and> inRange (r ! 2) 0x80 0xBF then 4 else 0)
          else 0)"

text \<open>\<open>utf8.EncodeRune\<close>; a surrogate or a value beyond \<open>0x10FFFF\<close> becomes \<open>U+FFFD\<close>.\<close>

definition replacementChar :: string where
  "replacementChar = [CHR 0xEF, CHR 0xBF, CHR 0xBD]"

definition EncodeRune :: "nat \<Rightarrow> string" where
  "EncodeRune r =
     (if r < 0x80 then [char_of r]
      else if r < 0x800 then [char_of (0xC0 + r div 64), char_of (0x80 + r mod 64)]
      else if (0xD800 \<le> r \<and> r < 0xE000) \<or> 0x10FFFF < r then replacementChar
      else if r < 0x10000 then
        [char_of (0xE0 + r div 4096), char_of (0x80 + r div 64 mod 64), char_of (0x80 + r mod 64)]
      else [char_of (0xF0 + r div 262144), char_of (0x80 + r div 4096 mod 64),
            char_of (0x80 + r div 64 mod 64), char_of (0x80 + r mod 64)])"

definition hexVal :: "char \<Rightarrow> nat" where
  "hexVal c =
     (if inRange c 0x30 0x39 then of_char c - 0x30
      else if inRange c 0x61 0x66 then of_char c - 0x61 + 10
      else of_char c - 0x41 + 10)"

text \<open>\<open>getu4\<close>: the value of a \<open>\uXXXX\<close> escape at the head of the bytes.\<close>

definition getu4 :: "string \<Rightarrow> nat option" where
  "getu4 s =
     (if length s < 6 \<or> s ! 0 \<noteq> CHR 0x5C \<or> s ! 1 \<noteq> CHR ''u'' \<or> \<not> list_all isHex (take 4 (drop 2 s))
      then None
      else Some (foldl (\<lambda>x c. x * 16 + hexVal c) 0 (take 4 (drop 2 s))))"

definition unescape :: "char \<Rightarrow> char option" where
  "unescape e =
     (if e = CHR 0x22 \<or> e = CHR 0x5C \<or> e = CHR ''/'' \<or> e = CHR 0x27 then Some e
      else if e = CHR ''b'' then Some (CHR 0x08)
      else if e = CHR ''f'' then Some (CHR 0x0C)
      else if e = CHR ''n'' then Some (CHR 0x0A)
      else if e = CHR ''r'' then Some (CHR 0x0D)
      else if e = CHR ''t'' then Some (CHR 0x09)
      else None)"

text \<open>
  The loop of \<open>unquoteBytes\<close> over the bytes between the quotes: escapes are resolved,
  a pair of surrogate escapes is one rune, a lone surrogate and an ill-formed byte
  become \<open>U+FFFD\<close>.
\<close>

fun unquoteBody :: "string \<Rightarrow> string option" where
  "unquoteBody [] = Some []"
| "unquoteBody (c # cs) =
     (if c = CHR 0x5C then
        (case cs of
           [] \<Rightarrow> None
         | e # r \<Rightarrow>
             if e = CHR ''u'' then
               (case getu4 (c # cs) of
                  None \<Rightarrow> None
                | Some rr \<Rightarrow>
                    if 0xD800 \<le> rr \<and> rr < 0xE000 then
                      (case getu4 (drop 5 cs) of
                         None \<Rightarrow> map_option (\<lambda>w. replacementChar @ w) (unquoteBody (drop 5 cs))
                       | Some rr1 \<Rightarrow>
                           if rr < 0xDC00 \<and> 0xDC00 \<le> rr1 \<and> rr1 < 0xE000
                           then map_option (\<lambda>w. EncodeRune ((rr - 0xD800) * 1024 + (rr1 - 0xDC00) + 0x10000) @ w)
                                  (unquoteBody (drop 11 cs))
                           else map_option (\<lambda>w. replacementChar @ w) (unquoteBody (drop 5 cs)))
                    else map_option (\<lambda>w. EncodeRune rr @ w) (unquoteBody (drop 5 cs)))
             else (case unescape e of
                     None \<Rightarrow> None
                   | Some x \<Rightarrow> map_option (\<lambda>w. x # w) (unquoteBody r)))
      else if c = CHR 0x22 \<or> (of_char c :: nat) < 0x20 then None
      else if (of_char c :: nat) < 0x80 then map_option (\<lambda>w. c # w) (unquoteBody cs)
      else if utf8_size (c # cs) = 0 then map_option (\<lambda>w. replacementChar @ w) (unquoteBody cs)
      else map_option (\<lambda>w. take (utf8_size (c # cs)) (c # cs) @ w)
             (unquoteBody (drop (utf8_size (c # cs) - 1) cs)))"

text \<open>\<open>unquoteBytes\<close>: the contents of a quoted JSON string literal.\<close>

definition unquote :: "string \<Rightarrow> string option" where
  "unquote s =
     (if length s < 2 \<or> hd s \<noteq> CHR 0x22 \<or> last s \<noteq> CHR 0x22 then None
      else unquoteBody (butlast (tl s)))"

definition hexDigit :: "nat \<Rightarrow> char" where
  "hexDigit n = ''0123456789abcdef'' ! n"

text \<open>
  \<open>appendString\<close> with HTML escaping on, between the quotes: the encoder's form of a Go
  string.
\<close>

fun encodeStringBody :: "string \<Rightarrow> string" where
  "encodeStringBody [] = []"
| "encodeStringBody (c # cs) =
     (if (of_char c :: nat) < 0x80 then
        (if c = CHR 0x22 \<or> c = CHR 0x5C then [CHR 0x5C, c]
         else if c = CHR 0x08 then [CHR 0x5C, CHR ''b'']
         else if c = CHR 0x0C then [CHR 0x5C, CHR ''f'']
         else if c = CHR 0x0A then [CHR 0x5C, CHR ''n'']
         else if c = CHR 0x0D then [CHR 0x5C, CHR ''r'']
         else if c = CHR 0x09 then [CHR 0x5C, CHR ''t'']
         else if (of_char c :: nat) < 0x20 \<or> c = CHR ''<'' \<or> c = CHR ''>'' \<or> c = CHR ''&''
           then [CHR 0x5C, CHR ''u'', CHR ''0'', CHR ''0'', hexDigit (of_char c div 16), hexDigit (of_char c mod 16)]
         else [c]) @ encodeStringBody cs
      else if utf8_size (c # cs) = 0 then CHR 0x5C # ''ufffd'' @ encodeStringBody cs
      else if take 3 (c # cs) = [CHR 0xE2, CHR 0x80, CHR 0xA8] then CHR 0x5C # ''u2028'' @ encodeStringBody (drop 2 cs)
      else if take 3 (c # cs) = [CHR 0xE2, CHR 0x80, CHR 0xA9] then CHR 0x5C # ''u2029'' @ encodeStringBody (drop 2 cs)
      else take (utf8_size (c # cs)) (c # cs) @ encodeStringBody (drop (utf8_size (c # cs) - 1) cs))"

definition encodeString :: "string \<Rightarrow> string" where
  "encodeString s = CHR 0x22 # encodeStringBody s @ [CHR 0x22]"

section \<open>encoding/json: compaction of a marshaler's output\<close>

text \<open>
  \<open>appendCompact(dst, src, escape = true)\<close>, which the encoder applies to what a
  \<open>MarshalJSON\<close> method returns: the scanner runs over the bytes; a byte on which it
  reports white space is left out; \<open><\<close>, \<open>>\<close>, \<open>&\<close> and the encodings of \<open>U+2028\<close> and
  \<open>U+2029\<close> are replaced by \<open>\u\<close> escapes. \<open>k\<close> counts the bytes of an encoding already
  replaced. \<open>None\<close> when the bytes are not one JSON value.
\<close>

fun compact_loop :: "nat \<Rightarrow> scanner \<Rightarrow> nat \<Rightarrow> string \<Rightarrow> string option" where
  "compact_loop maxDepth s k [] = (if eof maxDepth s = scanError then None else Some [])"
| "compact_loop maxDepth s k (c # cs) =
     (case scan_step maxDepth s c of
        (opc, s') \<Rightarrow>
          if opc = scanError then None
          else if 0 < k then compact_loop maxDepth s' (k - 1) cs
          else if c = CHR ''<'' \<or> c = CHR ''>'' \<or> c = CHR ''&'' then
            map_option (\<lambda>w. [CHR 0x5C, CHR ''u'', CHR ''0'', CHR ''0'', hexDigit (of_char c div 16),
                              hexDigit (of_char c mod 16)] @ w)
              (compact_loop maxDepth s' 0 cs)
          else if c = CHR 0xE2 \<and> 2 \<le> length cs \<and> cs ! 0 = CHR 0x80 \<and> (cs ! 1 = CHR 0xA8 \<or> cs ! 1 = CHR 0xA9) then
            map_option (\<lambda>w. [CHR 0x5C, CHR ''u'', CHR ''2'', CHR ''0'', CHR ''2'', hexDigit (of_char (cs ! 1) mod 16)] @ w)
              (compact_loop maxDepth s' 2 cs)
          else if opc = scanSkipSpace \<or> opc = scanEnd then compact_loop maxDepth s' 0 cs
          else map_option (\<lambda>w. c # w) (compact_loop maxDepth s' 0 cs))"

definition compact :: "string \<Rightarrow> string option" where
  "compact src = compact_loop maxNestingDepth (Scanner BeginValue []) 0 src"

section \<open>encoding/json: decoding into a wireContext\<close>

definition wireVersion :: string where
  "wireVersion = ''1''"

text \<open>The struct \<open>wireContext\<close>; a nil pointer is \<open>None\<close>.\<close>

record wireContext =
  V :: "string option"
  Deadline :: "Time option"
  Payload :: RawMessage
  Metadata :: RawMessage

definition skipSpace :: "string \<Rightarrow> string" where
  "skipSpace s = dropWhile isSpace s"

text \<open>
  The bytes of the string literal whose opening quote was just read, up to its closing
  quote, and the bytes after that quote (\<open>rescanLiteral\<close>).
\<close>

fun rescanString :: "string \<Rightarrow> string \<times> string" where
  "rescanString [] = ([], [])"
| "rescanString [c] = (if c = CHR 0x22 then ([], []) else ([c], []))"
| "rescanString (c # d # cs) =
     (if c = CHR 0x22 then ([], d # cs)
      else if c = CHR 0x5C then (case rescanString cs of (b, r) \<Rightarrow> (c # d # b, r))
      else (case rescanString (d # cs) of (b, r) \<Rightarrow> (c # b, r)))"

text \<open>
  The bytes of the JSON value that starts at the head of the input, and the bytes after
  it: a scanner of its own runs until the value is complete (\<open>rescanLiteral\<close> for a
  literal, \<open>skip\<close> for an array or object).
\<close>

fun valueBytes :: "nat \<Rightarrow> scanner \<Rightarrow> string \<Rightarrow> string \<times> string" where
  "valueBytes maxDepth s [] = ([], [])"
| "valueBytes maxDepth s (c # cs) =
     (case scan_step maxDepth s c of
        (opc, Scanner st ps) \<Rightarrow>
          if opc = scanEnd \<or> opc = scanError then ([], c # cs)
          else if ps = [] \<and> (st = EndValue \<or> st = EndTop) then ([c], cs)
          else (case valueBytes maxDepth (Scanner st ps) cs of (v, r) \<Rightarrow> (c # v, r)))"


lemma skipSpace_Cons_length: "skipSpace s = c # r \<Longrightarrow> length r < length s"
  using length_dropWhile_le [of isSpace s] by (simp add: skipSpace_def)

lemma length_skipSpace: "length (skipSpace s) \<le> length s"
  by (simp add: skipSpace_def length_dropWhile_le)

lemma rescanString_length: "rescanString s = (k, r) \<Longrightarrow> length r \<le> length s"
  by (induction s arbitrary: k r rule: rescanString.induct)
     (fastforce split: prod.splits if_splits)+

lemma valueBytes_length: "valueBytes maxDepth sc s = (v, r) \<Longrightarrow> length r \<le> length s"
  by (induction s arbitrary: sc v r) (fastforce split: prod.splits scanner.splits if_splits)+

text \<open>
  The loop of \<open>decodeState.object\<close> over input that \<open>checkValid\<close> has accepted, after the
  opening brace: the members in order, each as the bytes of its key between the quotes and
  the bytes of its value.
\<close>

function objectMembers :: "string \<Rightarrow> (string \<times> string) list" where
  "objectMembers s =
     (case skipSpace s of
        [] \<Rightarrow> []
      | c # r \<Rightarrow>
          if c \<noteq> CHR 0x22 then []
          else (case rescanString r of
                  (key, r1) \<Rightarrow>
                    (case valueBytes maxNestingDepth (Scanner BeginValue []) (skipSpace (drop 1 (skipSpace r1))) of
                       (v, r2) \<Rightarrow>
                         (key, v) # (case skipSpace r2 of
                                      [] \<Rightarrow> []
                                    | c2 # r3 \<Rightarrow> if c2 = CHR '','' then objectMembers r3 else []))))"
  by pat_completeness auto

termination
proof (relation "measure length", goal_cases)
  case 1
  show ?case by simp
next
  case (2 s c r key r1 v r2 c2 r3)
  from 2 have a: "length r < length s" by (auto dest: skipSpace_Cons_length)
  from 2 have b: "length r1 \<le> length r" by (auto dest: rescanString_length [OF sym])
  from 2 have c: "length r2 \<le> length (skipSpace (drop 1 (skipSpace r1)))"
    by (auto dest: valueBytes_length [OF sym])
  have d: "length (skipSpace (drop 1 (skipSpace r1))) \<le> length r1"
    using length_skipSpace [of "drop 1 (skipSpace r1)"] length_skipSpace [of r1] by simp
  from 2 have e: "length r3 < length r2" by (auto dest: skipSpace_Cons_length)
  show ?case using a b c d e by simp
qed

declare objectMembers.simps [simp del]

text \<open>The struct field a key selects: the field of that name, else the first field whose
  name matches without regard to the case of ASCII letters.\<close>

definition fieldNames :: "string list" where
  "fieldNames = [''jctx'', ''deadline'', ''payload'', ''meta'']"

definition foldName :: "string \<Rightarrow> string" where
  "foldName s = map (\<lambda>c. if inRange c 0x61 0x7A then char_of ((of_char c :: nat) - 0x20) else c) s"

definition fieldOf :: "string \<Rightarrow> string option" where
  "fieldOf key =
     (case find (\<lambda>n. n = key) fieldNames of
        Some n \<Rightarrow> Some n
      | None \<Rightarrow> find (\<lambda>n. foldName n = foldName key) fieldNames)"

text \<open>
  One member decoded into the struct. The state is the struct and the first type error
  saved so far (decoding goes on after it); \<open>Inl\<close> is an error from an \<open>UnmarshalJSON\<close>
  method, which stops decoding. \<open>null\<close> sets a pointer to nil; a \<open>json.RawMessage\<close>
  keeps the bytes of any value, \<open>null\<close> too.
\<close>

definition storeField ::
    "TimeParser \<Rightarrow> string \<Rightarrow> string \<Rightarrow> wireContext \<times> error option \<Rightarrow> error + wireContext \<times> error option" where
  "storeField time_Parse name v st =
     (case st of
        (c, saved) \<Rightarrow>
          if name = ''jctx'' then
            (if hd v = CHR ''n'' then Inr (c\<lparr>V := None\<rparr>, saved)
             else if hd v = CHR 0x22 then
               (case unquote v of
                  None \<Rightarrow> Inl SyntaxError
                | Some str \<Rightarrow> Inr (c\<lparr>V := Some str\<rparr>, saved))
             else Inr (c, case saved of None \<Rightarrow> Some (UnmarshalTypeError name) | Some e \<Rightarrow> Some e))
          else if name = ''deadline'' then
            (if hd v = CHR ''n'' then Inr (c\<lparr>Deadline := None\<rparr>, saved)
             else (case Time_UnmarshalJSON time_Parse v of
                     Inl e \<Rightarrow> Inl e
                   | Inr t \<Rightarrow> Inr (c\<lparr>Deadline := Some t\<rparr>, saved)))
          else if name = ''payload'' then Inr (c\<lparr>Payload := Some v\<rparr>, saved)
          else Inr (c\<lparr>Metadata := Some v\<rparr>, saved))"

definition memberField :: "string \<Rightarrow> string option" where
  "memberField key = (case unquoteBody key of None \<Rightarrow> None | Some k \<Rightarrow> fieldOf k)"

fun decodeMembers ::
    "TimeParser \<Rightarrow> (string \<times> string) list \<Rightarrow> wireContext \<times> error option \<Rightarrow> error + wireContext \<times> error option" where
  "decodeMembers time_Parse [] st = Inr st"
| "decodeMembers time_Parse ((key, v) # ms) st =
     (case memberField key of
        None \<Rightarrow> decodeMembers time_Parse ms st
      | Some name \<Rightarrow>
          (case storeField time_Parse name v st of
             Inl e \<Rightarrow> Inl e
           | Inr st' \<Rightarrow> decodeMembers time_Parse ms st'))"

text \<open>
  \<open>json.Unmarshal(data, &c)\<close> for \<open>c\<close> of type \<open>wireContext\<close>: the struct after the call,
  or the error returned (the struct is not read after an error).
\<close>

definition json_Unmarshal_wireContext :: "TimeParser \<Rightarrow> string \<Rightarrow> wireContext \<Rightarrow> error + wireContext" where
  "json_Unmarshal_wireContext time_Parse data c =
     (if \<not> checkValid maxNestingDepth data then Inl SyntaxError
      else (case skipSpace data of
              [] \<Rightarrow> Inl SyntaxError
            | b # r \<Rightarrow>
                if b = CHR ''{'' then
                  (case decodeMembers time_Parse (objectMembers r) (c, None) of
                     Inl e \<Rightarrow> Inl e
                   | Inr (c', Some e) \<Rightarrow> Inl e
                   | Inr (c', None) \<Rightarrow> Inr c')
                else if b = CHR ''n'' then Inr c
                else Inl (UnmarshalTypeError [])))"

section \<open>encoding/json: encoding a wireContext\<close>

text \<open>A field of type \<open>json.RawMessage\<close> with \<open>omitempty\<close>: left out when its length is 0,
  else its bytes compacted.\<close>

definition encodeRawField :: "string \<Rightarrow> RawMessage \<Rightarrow> error + string" where
  "encodeRawField name m =
     (if len m = 0 then Inr []
      else (case compact (bytes_of m) of
              None \<Rightarrow> Inl (MarshalerError ''json.RawMessage'')
            | Some b \<Rightarrow> Inr ('','' @ encodeString name @ '':'' @ b)))"

text \<open>The field \<open>Deadline\<close> with \<open>omitempty\<close>: left out when the pointer is nil.\<close>

definition encodeDeadlineField :: "Time option \<Rightarrow> error + string" where
  "encodeDeadlineField d =
     (case d of
        None \<Rightarrow> Inr []
      | Some t \<Rightarrow>
          (case Time_MarshalJSON t of
             Inl e \<Rightarrow> Inl e
           | Inr b \<Rightarrow>
               (case compact b of
                  None \<Rightarrow> Inl (MarshalerError ''time.Time'')
                | Some b' \<Rightarrow> Inr ('','' @ encodeString ''deadline'' @ '':'' @ b'))))"

text \<open>\<open>json.Marshal(c)\<close> for \<open>c\<close> of type \<open>wireContext\<close>: the fields in the order of the
  struct.\<close>

definition json_Marshal_wireContext :: "wireContext \<Rightarrow> error + string" where
  "json_Marshal_wireContext c =
     (case encodeDeadlineField (Deadline c) of
        Inl e \<Rightarrow> Inl e
      | Inr dl \<Rightarrow>
          (case encodeRawField ''payload'' (Payload c) of
             Inl e \<Rightarrow> Inl e
           | Inr pl \<Rightarrow>
               (case encodeRawField ''meta'' (Metadata c) of
                  Inl e \<Rightarrow> Inl e
                | Inr md \<Rightarrow>
                    Inr (''{'' @ encodeString ''jctx'' @ '':''
                         @ (case V c of None \<Rightarrow> ''null'' | Some s \<Rightarrow> encodeString s)
                         @ dl @ pl @ md @ ''}''))))"

section \<open>Package jctx: the envelope codec\<close>

text \<open>The zero value of the struct, as \<open>var c wireContext\<close> declares it.\<close>

definition zeroWireContext :: wireContext where
  "zeroWireContext = \<lparr>V = None, Deadline = None, Payload = None, Metadata = None\<rparr>"

text \<open>
  \<open>Encode(ctx, method, params)\<close>. The result is the pair Go returns: the bytes and a nil
  error, or nil and the error of \<open>json.Marshal\<close>.
\<close>

definition Encode :: "Context \<Rightarrow> string \<Rightarrow> RawMessage \<Rightarrow> RawMessage \<times> error option" where
  "Encode ctx method params =
     (let c0 = \<lparr>V = Some wireVersion, Deadline = None, Payload = params, Metadata = None\<rparr>;
          c1 = (case Context_Deadline ctx of
                  Some dl \<Rightarrow> c0\<lparr>Deadline := Some (UTC dl)\<rparr>
                | None \<Rightarrow> c0);
          c2 = (case Value_metadataKey ctx of
                  Some v \<Rightarrow> c1\<lparr>Metadata := v\<rparr>
                | None \<Rightarrow> c1)
      in (case json_Marshal_wireContext c2 of
            Inl err \<Rightarrow> (None, Some err)
          | Inr bits \<Rightarrow> (Some bits, None)))"

text \<open>
  \<open>Decode(ctx, method, req)\<close>. The result is the triple Go returns; a nil context is
  \<open>None\<close>.
\<close>

definition Decode ::
    "TimeParser \<Rightarrow> Context \<Rightarrow> string \<Rightarrow> RawMessage \<Rightarrow> Context option \<times> RawMessage \<times> error option" where
  "Decode time_Parse ctx method req =
     (if len req = 0 \<or> hd (bytes_of req) \<noteq> CHR ''{'' then (Some ctx, req, None)
      else (case json_Unmarshal_wireContext time_Parse (bytes_of req) zeroWireContext of
              Inl err \<Rightarrow> (Some ctx, req, None)
            | Inr c \<Rightarrow>
                (case V c of
                   None \<Rightarrow> (Some ctx, req, None)
                 | Some v \<Rightarrow>
                     if v \<noteq> wireVersion then (None, None, Some (ErrInvalidContextVersion v))
                     else
                       (let ctx1 = (case Metadata c of
                                      Some m \<Rightarrow> WithValue_metadataKey ctx (Some m)
                                    | None \<Rightarrow> ctx);
                            ctx2 = (case Deadline c of
                                      Some d \<Rightarrow> if \<not> IsZero d then WithDeadline ctx1 (UTC d) else ctx1
                                    | None \<Rightarrow> ctx1)
                        in (Some ctx2, Payload c, None)))))"


section \<open>The context metadata store\<close>

text \<open>
  \<open>WithMetadata(ctx, meta)\<close>. \<open>meta\<close> is an \<open>interface{}\<close>: \<open>None\<close> is the nil
  interface. \<open>json.Marshal\<close> is directed by the dynamic type of \<open>meta\<close>, which the caller
  chooses, so it is a parameter here. The result is the pair Go returns.
\<close>

definition WithMetadata ::
    "('a \<Rightarrow> error + string) \<Rightarrow> Context \<Rightarrow> 'a option \<Rightarrow> Context \<times> error option" where
  "WithMetadata json_Marshal ctx meta =
     (case meta of
        None \<Rightarrow> (WithValue_metadataKey ctx None, None)
      | Some v \<Rightarrow>
          (case json_Marshal v of
             Inl err \<Rightarrow> (ctx, Some err)
           | Inr bits \<Rightarrow> (WithValue_metadataKey ctx (Some bits), None)))"

text \<open>
  \<open>UnmarshalMetadata(ctx, meta)\<close>. \<open>meta\<close> points to the target; \<open>json.Unmarshal\<close>
  writes through it and returns an error or nil. The model returns the target after the
  call together with the error.
\<close>

definition UnmarshalMetadata ::
    "(string \<Rightarrow> 'a \<Rightarrow> 'a \<times> error option) \<Rightarrow> Context \<Rightarrow> 'a \<Rightarrow> 'a \<times> error option" where
  "UnmarshalMetadata json_Unmarshal ctx meta =
     (case Value_metadataKey ctx of
        Some (Some msg) \<Rightarrow> json_Unmarshal msg meta
      | Some None \<Rightarrow> (meta, Some ErrNoMetadata)
      | None \<Rightarrow> (meta, Some ErrNoMetadata))"

text \<open>
  One instance of the type-directed marshaller and unmarshaller, for a metadata value
  that is a Go \<open>bool\<close> or a channel. \<open>json.Marshal\<close> refuses a channel.
  \<open>json.Unmarshal\<close> checks the bytes first; then \<open>null\<close> leaves the target as it is, a
  \<open>bool\<close> target takes \<open>true\<close> or \<open>false\<close>, and any other value is a type error.
\<close>

datatype sample_meta = SampleBool bool | SampleChan

fun sample_Marshal :: "sample_meta \<Rightarrow> error + string" where
  "sample_Marshal (SampleBool b) = Inr (if b then ''true'' else ''false'')"
| "sample_Marshal SampleChan = Inl UnsupportedTypeError"

definition sample_Unmarshal :: "string \<Rightarrow> sample_meta \<Rightarrow> sample_meta \<times> error option" where
  "sample_Unmarshal data target =
     (if \<not> checkValid maxNestingDepth data then (target, Some SyntaxError)
      else
        (let v = takeWhile (\<lambda>c. \<not> isSpace c) (skipSpace data)
         in if v = ''null'' then (target, None)
            else (case target of
                    SampleBool b \<Rightarrow>
                      if v = ''true'' then (SampleBool True, None)
                      else if v = ''false'' then (SampleBool False, None)
                      else (target, Some (UnmarshalTypeError ''bool''))
                  | SampleChan \<Rightarrow> (target, Some (UnmarshalTypeError ''chan'')))))"

section \<open>Notions used in the proofs\<close>

subsection \<open>Runs of the scanner\<close>

text \<open>An opcode on which \<open>appendCompact\<close> keeps the byte it has just read.\<close>

definition kept :: "opcode \<Rightarrow> bool" where
  "kept opc = (opc \<noteq> scanSkipSpace \<and> opc \<noteq> scanEnd \<and> opc \<noteq> scanError)"

text \<open>A run of the scanner in which every byte is kept.\<close>

fun scan_kept :: "nat \<Rightarrow> scanner \<Rightarrow> string \<Rightarrow> scanner option" where
  "scan_kept m s [] = Some s"
| "scan_kept m s (c # cs) =
     (case scan_step m s c of (opc, s') \<Rightarrow> if kept opc then scan_kept m s' cs else None)"

text \<open>The scanner of a value read on its own, as it is when the value is read inside the
  containers of \<open>base\<close>.\<close>

fun lift :: "pstate list \<Rightarrow> scanner \<Rightarrow> scanner" where
  "lift base (Scanner st ps) = Scanner (if st = EndTop then EndValue else st) (ps @ base)"

fun liftr :: "pstate list \<Rightarrow> opcode \<times> scanner \<Rightarrow> opcode \<times> scanner" where
  "liftr base (opc, s) = (opc, lift base s)"

text \<open>What every scanner reached from the initial one satisfies.\<close>

fun wf_scanner :: "scanner \<Rightarrow> bool" where
  "wf_scanner (Scanner st ps) = ((st = EndTop \<longrightarrow> ps = []) \<and> (st = BeginStringOrEmpty \<longrightarrow> ps \<noteq> []))"

text \<open>A scanner that has read one complete value and nothing after it.\<close>

fun complete :: "scanner \<Rightarrow> bool" where
  "complete (Scanner st ps) = (ps = [] \<and> (st = EndValue \<or> st = EndTop))"

text \<open>The scanner after white space: a number that was being read has ended.\<close>

fun settled :: "scanner \<Rightarrow> scanner" where
  "settled (Scanner st ps) =
     (if st = St1 \<or> st = St0 \<or> st = Dot0 \<or> st = E0 \<or> st = EndValue
      then (if ps = [] then Scanner EndTop [] else Scanner EndValue ps)
      else Scanner st ps)"

text \<open>A scanner inside an object, right after the value of a member.\<close>

definition closing :: "scanner \<Rightarrow> bool" where
  "closing q = (case q of Scanner st ps \<Rightarrow> ps = [parseObjectValue] \<and> (st = EndValue \<or> st = St1 \<or> st = St0 \<or> st = Dot0 \<or> st = E0))"

subsection \<open>Compact JSON\<close>

definition htmlByte :: "char \<Rightarrow> bool" where
  "htmlByte c = (c = CHR ''<'' \<or> c = CHR ''>'' \<or> c = CHR ''&'')"

text \<open>The UTF-8 encoding of \<open>U+2028\<close> or \<open>U+2029\<close> at the head of the bytes.\<close>

definition lineSepAt :: "string \<Rightarrow> bool" where
  "lineSepAt s = (case s of c # d # e # r \<Rightarrow> c = CHR 0xE2 \<and> d = CHR 0x80 \<and> (e = CHR 0xA8 \<or> e = CHR 0xA9) | _ \<Rightarrow> False)"

fun noLineSep :: "string \<Rightarrow> bool" where
  "noLineSep [] = True"
| "noLineSep (c # cs) = (\<not> lineSepAt (c # cs) \<and> noLineSep cs)"

text \<open>
  Bytes that \<open>appendCompact\<close> copies as they are: one JSON value nested no deeper than
  \<open>m\<close>, without white space between its tokens, and with none of the bytes the encoder
  escapes.
\<close>

definition compactJSON :: "nat \<Rightarrow> string \<Rightarrow> bool" where
  "compactJSON m bs =
     ((case scan_kept m (Scanner BeginValue []) bs of None \<Rightarrow> False | Some s \<Rightarrow> eof m s = scanEnd)
      \<and> list_all (\<lambda>c. \<not> htmlByte c) bs \<and> noLineSep bs)"

subsection \<open>The text of a time\<close>

text \<open>The month and day of a day of a year without a leap day.\<close>

definition plainMonthDay :: "int \<Rightarrow> nat \<times> int" where
  "plainMonthDay d =
     (let m = nat (d div 31); e = daysBefore (m + 1)
      in if d \<ge> e then (m + 2, d - e + 1) else (m + 1, d - daysBefore m + 1))"

text \<open>The characters of an RFC 3339 time in UTC.\<close>

definition plainChar :: "char \<Rightarrow> bool" where
  "plainChar c = (c \<in> set ''0123456789-:.TZ'')"

subsection \<open>The members of an envelope\<close>

text \<open>What the encoder writes for a member after the first: a comma, the key between
  quotes, a colon and the value.\<close>

definition fieldText :: "string \<times> string \<Rightarrow> string" where
  "fieldText f = CHR '','' # CHR 0x22 # fst f @ CHR 0x22 # CHR '':'' # snd f"

definition wireKey :: "string \<Rightarrow> bool" where
  "wireKey k = (k = ''deadline'' \<or> k = ''payload'' \<or> k = ''meta'')"

definition wireField :: "nat \<Rightarrow> string \<times> string \<Rightarrow> bool" where
  "wireField m f = (wireKey (fst f) \<and> compactJSON m (snd f))"

text \<open>The bytes every envelope starts with.\<close>

definition envelopeHead :: string where
  "envelopeHead = ''{'' @ encodeString ''jctx'' @ '':'' @ encodeString wireVersion"

text \<open>The members the encoder writes for the optional fields of a \<open>wireContext\<close>.\<close>

definition rawFields :: "string \<Rightarrow> RawMessage \<Rightarrow> (string \<times> string) list" where
  "rawFields name m =
     (if len m = 0 then []
      else (case compact (bytes_of m) of None \<Rightarrow> [] | Some b \<Rightarrow> [(name, b)]))"

definition deadlineFields :: "Time option \<Rightarrow> (string \<times> string) list" where
  "deadlineFields d =
     (case d of
        None \<Rightarrow> []
      | Some t \<Rightarrow> (case Time_MarshalJSON t of Inl e \<Rightarrow> [] | Inr b \<Rightarrow> [(''deadline'', b)]))"

definition wireFields :: "wireContext \<Rightarrow> (string \<times> string) list" where
  "wireFields c = deadlineFields (Deadline c) @ rawFields ''payload'' (Payload c) @ rawFields ''meta'' (Metadata c)"

text \<open>The struct that \<open>Encode\<close> hands to \<open>json.Marshal\<close>.\<close>

definition encodeContext :: "Context \<Rightarrow> RawMessage \<Rightarrow> wireContext" where
  "encodeContext ctx params =
     \<lparr>V = Some wireVersion, Deadline = map_option UTC (Context_Deadline ctx), Payload = params,
      Metadata = (case Value_metadataKey ctx of None \<Rightarrow> None | Some v \<Rightarrow> v)\<rparr>"

text \<open>The struct that \<open>json.Unmarshal\<close> rebuilds from what \<open>json.Marshal\<close> wrote.\<close>

definition decodedContext :: "wireContext \<Rightarrow> wireContext" where
  "decodedContext c =
     \<lparr>V = Some wireVersion, Deadline = Deadline c,
      Payload = (if len (Payload c) = 0 then None else compact (bytes_of (Payload c))),
      Metadata = (if len (Metadata c) = 0 then None else compact (bytes_of (Metadata c)))\<rparr>"

section \<open>Properties of the metadata store\<close>

lemma Value_metadataKey_never: "\<not> ever_attached ctx \<Longrightarrow> Value_metadataKey ctx = None"
  by (induction ctx) simp_all

text \<open>
  Claim C5. Masking: for every context, also one that inherits real metadata from an
  ancestor, attaching the nil metadata with \<open>WithMetadata(ctx, nil)\<close> succeeds, and
  \<open>UnmarshalMetadata\<close> on the result fails with \<open>ErrNoMetadata\<close> and leaves the target as
  it was.
\<close>

theorem C5_masking:
  "WithMetadata json_Marshal ctx None = (WithValue_metadataKey ctx None, None) \<and>
   UnmarshalMetadata json_Unmarshal (fst (WithMetadata json_Marshal ctx None)) target
     = (target, Some ErrNoMetadata)"
  by (simp add: WithMetadata_def UnmarshalMetadata_def WithValue_metadataKey_def)

theorem C5_masking_witness:
  "UnmarshalMetadata sample_Unmarshal
     (fst (WithMetadata sample_Marshal (metadataCtx Background (Some ''true'')) None))
     (SampleBool False)
   = (SampleBool False, Some ErrNoMetadata)"
  using C5_masking [of sample_Marshal "metadataCtx Background (Some ''true'')"
      sample_Unmarshal "SampleBool False"]
  by (rule conjunct2)

text \<open>
  Claim C7. When serializing the metadata value fails, \<open>WithMetadata\<close> returns the
  context it was given, unchanged (so its metadata slot reads as before), together with
  the serialization error.
\<close>

theorem C7_marshal_failure:
  assumes "json_Marshal v = Inl err"
  shows "WithMetadata json_Marshal ctx (Some v) = (ctx, Some err) \<and>
         Value_metadataKey (fst (WithMetadata json_Marshal ctx (Some v))) = Value_metadataKey ctx"
  using assms by (simp add: WithMetadata_def)

theorem C7_marshal_failure_witness:
  "sample_Marshal SampleChan = Inl UnsupportedTypeError \<and>
   WithMetadata sample_Marshal (metadataCtx Background (Some ''true'')) (Some SampleChan)
     = (metadataCtx Background (Some ''true''), Some UnsupportedTypeError)"
  using C7_marshal_failure [of sample_Marshal SampleChan UnsupportedTypeError
      "metadataCtx Background (Some ''true'')"]
  by simp

text \<open>
  Claim C9. On a context to which no metadata was ever attached (no ancestor was made
  by attaching, not even the masking nil value), \<open>UnmarshalMetadata\<close> fails with
  \<open>ErrNoMetadata\<close>.
\<close>

theorem C9_absent:
  assumes "\<not> ever_attached ctx"
  shows "UnmarshalMetadata json_Unmarshal ctx target = (target, Some ErrNoMetadata)"
  using Value_metadataKey_never [OF assms] by (simp add: UnmarshalMetadata_def)

theorem C9_absent_witness:
  "\<not> ever_attached (cancelCtx (valueCtx Background ''trace'' ''on'')) \<and>
   UnmarshalMetadata sample_Unmarshal (cancelCtx (valueCtx Background ''trace'' ''on''))
     (SampleBool True) = (SampleBool True, Some ErrNoMetadata)"
  using C9_absent [of "cancelCtx (valueCtx Background ''trace'' ''on'')" sample_Unmarshal
      "SampleBool True"]
  by simp

section \<open>Evaluating the model on concrete bytes\<close>

lemmas scan_defs = isSpace_def isDigit_def isDigit19_def isHex_def scan_error_def continue_def
  pushParseState_def popParseState_def stateEndTop_def stateEndValue_def stateBeginValue_def
  stateBeginValueOrEmpty_def stateBeginString_def stateBeginStringOrEmpty_def stateInString_def
  stateInStringEsc_def expect_def state0_def state1_def stateNeg_def stateDot0_def stateESign_def
  stateE_def stateE0_def checkValid_def maxNestingDepth_def

lemmas decode_defs = Decode_def len_def bytes_of_def json_Unmarshal_wireContext_def skipSpace_def
  objectMembers.simps memberField_def fieldOf_def fieldNames_def foldName_def inRange_def
  storeField_def unquote_def unescape_def wireVersion_def zeroWireContext_def
  WithValue_metadataKey_def WithDeadline_def IsZero_def UTC_def Before_def

section \<open>Properties of Decode\<close>

text \<open>
  Claim C2. Fallback: when the message is empty, or does not begin with \<open>{\<close>, or
  \<open>json.Unmarshal\<close> into the envelope struct fails, or it succeeds and leaves the version
  pointer nil, \<open>Decode\<close> returns the context it was given, the message unchanged, and a nil
  error. This holds whatever \<open>time.Parse\<close> accepts for a deadline that is not strict
  RFC 3339.
\<close>

theorem C2_fallback:
  assumes "len req = 0 \<or> hd (bytes_of req) \<noteq> CHR ''{''
           \<or> (\<exists>err. json_Unmarshal_wireContext time_Parse (bytes_of req) zeroWireContext = Inl err)
           \<or> (\<exists>c. json_Unmarshal_wireContext time_Parse (bytes_of req) zeroWireContext = Inr c \<and> V c = None)"
  shows "Decode time_Parse ctx method req = (Some ctx, req, None)"
  using assms by (auto simp: Decode_def)

theorem C2_fallback_witness:
  \<open>\<forall>time_Parse.
     Decode time_Parse Background ''m'' None = (Some Background, None, None) \<and>
     Decode time_Parse Background ''m'' (Some ''[1,2,3]'') = (Some Background, Some ''[1,2,3]'', None) \<and>
     json_Unmarshal_wireContext time_Parse ''{"x":1'' zeroWireContext = Inl SyntaxError \<and>
     Decode time_Parse Background ''m'' (Some ''{"x":1'') = (Some Background, Some ''{"x":1'', None) \<and>
     json_Unmarshal_wireContext time_Parse ''{"x":1}'' zeroWireContext = Inr zeroWireContext \<and>
     Decode time_Parse Background ''m'' (Some ''{"x":1}'') = (Some Background, Some ''{"x":1}'', None)\<close>
proof
  fix time_Parse :: TimeParser
  have a: "len None = 0" by (simp add: len_def)
  have b: \<open>hd (bytes_of (Some ''[1,2,3]'')) \<noteq> CHR ''{''\<close> by (simp add: bytes_of_def)
  have c: \<open>json_Unmarshal_wireContext time_Parse (bytes_of (Some ''{"x":1'')) zeroWireContext = Inl SyntaxError\<close>
    by (simp add: scan_defs decode_defs)
  have d: \<open>json_Unmarshal_wireContext time_Parse (bytes_of (Some ''{"x":1}'')) zeroWireContext = Inr zeroWireContext\<close>
    by (simp add: scan_defs decode_defs)
  have e: "V zeroWireContext = None" by (simp add: zeroWireContext_def)
  show \<open>Decode time_Parse Background ''m'' None = (Some Background, None, None) \<and>
     Decode time_Parse Background ''m'' (Some ''[1,2,3]'') = (Some Background, Some ''[1,2,3]'', None) \<and>
     json_Unmarshal_wireContext time_Parse ''{"x":1'' zeroWireContext = Inl SyntaxError \<and>
     Decode time_Parse Background ''m'' (Some ''{"x":1'') = (Some Background, Some ''{"x":1'', None) \<and>
     json_Unmarshal_wireContext time_Parse ''{"x":1}'' zeroWireContext = Inr zeroWireContext \<and>
     Decode time_Parse Background ''m'' (Some ''{"x":1}'') = (Some Background, Some ''{"x":1}'', None)\<close>
    using C2_fallback [of None time_Parse Background "''m''"] a
      C2_fallback [of \<open>Some ''[1,2,3]''\<close> time_Parse Background "''m''"] b
      C2_fallback [of \<open>Some ''{"x":1''\<close> time_Parse Background "''m''"] c
      C2_fallback [of \<open>Some ''{"x":1}''\<close> time_Parse Background "''m''"] d e
    by (simp add: bytes_of_def)
qed

text \<open>
  Claim C3. Version mismatch: when the message reaches the parse step (it begins with
  \<open>{\<close>; a message that does not is not an envelope) and parses as an envelope whose
  version is present and is not \<open>"1"\<close>, \<open>Decode\<close> returns a non-nil error, a nil context
  and nil params. This holds whatever \<open>time.Parse\<close> accepts for a deadline that is not
  strict RFC 3339.
\<close>

theorem C3_version_mismatch:
  assumes "len req \<noteq> 0" and "hd (bytes_of req) = CHR ''{''"
    and "json_Unmarshal_wireContext time_Parse (bytes_of req) zeroWireContext = Inr c"
    and "V c = Some v" and "v \<noteq> wireVersion"
  shows "Decode time_Parse ctx method req = (None, None, Some (ErrInvalidContextVersion v))"
  using assms by (simp add: Decode_def)

theorem C3_version_mismatch_witness:
  \<open>\<forall>time_Parse.
     json_Unmarshal_wireContext time_Parse ''{"jctx":"99"}'' zeroWireContext
       = Inr (zeroWireContext\<lparr>V := Some ''99''\<rparr>) \<and>
     ''99'' \<noteq> wireVersion \<and>
     Decode time_Parse Background ''m'' (Some ''{"jctx":"99"}'')
       = (None, None, Some (ErrInvalidContextVersion ''99''))\<close>
proof
  fix time_Parse :: TimeParser
  have a: \<open>len (Some ''{"jctx":"99"}'') \<noteq> 0\<close> and b: \<open>hd (bytes_of (Some ''{"jctx":"99"}'')) = CHR ''{''\<close>
    by (simp_all add: len_def bytes_of_def)
  have c: \<open>json_Unmarshal_wireContext time_Parse (bytes_of (Some ''{"jctx":"99"}'')) zeroWireContext
            = Inr (zeroWireContext\<lparr>V := Some ''99''\<rparr>)\<close>
    by (simp add: scan_defs decode_defs)
  have d: "V (zeroWireContext\<lparr>V := Some ''99''\<rparr>) = Some ''99''" by simp
  have e: "''99'' \<noteq> wireVersion" by (simp add: wireVersion_def)
  show \<open>json_Unmarshal_wireContext time_Parse ''{"jctx":"99"}'' zeroWireContext
       = Inr (zeroWireContext\<lparr>V := Some ''99''\<rparr>) \<and>
     ''99'' \<noteq> wireVersion \<and>
     Decode time_Parse Background ''m'' (Some ''{"jctx":"99"}'')
       = (None, None, Some (ErrInvalidContextVersion ''99''))\<close>
    using C3_version_mismatch [OF a b c d e, of Background "''m''"] c e by (simp add: bytes_of_def)
qed

subsection \<open>A deadline that only \<open>time.Parse\<close> accepts\<close>

text \<open>
  A comma before the fraction of a second, or a zone of 24 hours, is refused by
  \<open>parseRFC3339\<close>. When \<open>time.Parse\<close> accepts the text the envelope is parsed: its deadline
  is set, and a version other than \<open>"1"\<close> is reported.
\<close>

lemma parseRFC3339_comma: "parseRFC3339 ''2009-11-10T23:00:00,5Z'' = None"
  by (simp add: parseRFC3339_def parseUint_def atoi_def digitVal_def isDigit_def daysIn_def
      daysBefore_def isLeap_def parseZone_def Let_def)

lemma parseRFC3339_zone24: "parseRFC3339 ''2009-11-10T23:00:00+24:00'' = None"
  by (simp add: parseRFC3339_def parseUint_def atoi_def digitVal_def isDigit_def daysIn_def
      daysBefore_def isLeap_def parseZone_def Let_def)

lemma Decode_lenient_deadline:
  assumes "time_Parse ''2009-11-10T23:00:00,5Z'' = Inr t" and "\<not> IsZero t"
  shows \<open>Decode time_Parse Background ''m''
           (Some ''{"jctx":"1","deadline":"2009-11-10T23:00:00,5Z","payload":[1]}'')
         = (Some (timerCtx Background (UTC t)), Some ''[1]'', None)\<close>
  using assms parseRFC3339_comma
  by (simp add: scan_defs decode_defs Time_UnmarshalJSON_def)

lemma Decode_lenient_version:
  assumes "time_Parse ''2009-11-10T23:00:00+24:00'' = Inr t"
  shows \<open>Decode time_Parse Background ''m''
           (Some ''{"jctx":"99","deadline":"2009-11-10T23:00:00+24:00"}'')
         = (None, None, Some (ErrInvalidContextVersion ''99''))\<close>
  using assms parseRFC3339_zone24
  by (simp add: scan_defs decode_defs Time_UnmarshalJSON_def)

subsection \<open>A version that is \<open>null\<close>\<close>

lemma storeField_V_None:
  assumes "storeField time_Parse name v (c, saved) = Inr (c', saved')" and "V c = None"
    and "name = ''jctx'' \<longrightarrow> v = ''null''"
  shows "V c' = None"
  using assms by (auto simp: storeField_def split: if_splits option.splits sum.splits)

lemma decodeMembers_V_None:
  assumes "decodeMembers time_Parse ms (c, saved) = Inr (c', saved')" and "V c = None"
    and "\<forall>(k, v) \<in> set ms. memberField k = Some ''jctx'' \<longrightarrow> v = ''null''"
  shows "V c' = None"
  using assms
proof (induction ms arbitrary: c saved)
  case Nil
  then show ?case by simp
next
  case (Cons m ms)
  obtain k v where m: "m = (k, v)" by (cases m)
  show ?case
  proof (cases "memberField k")
    case None
    with Cons m show ?thesis by simp
  next
    case (Some name)
    with Cons.prems(1) m obtain c1 saved1 where
      st: "storeField time_Parse name v (c, saved) = Inr (c1, saved1)" and
      rest: "decodeMembers time_Parse ms (c1, saved1) = Inr (c', saved')"
      by (auto split: sum.splits)
    have "name = ''jctx'' \<longrightarrow> v = ''null''" using Cons.prems(3) m Some by simp
    then have "V c1 = None" using storeField_V_None [OF st Cons.prems(2)] by simp
    then show ?thesis using Cons.IH [OF rest] Cons.prems(3) by simp
  qed
qed

text \<open>
  Claim C10. A version that is explicitly \<open>null\<close> counts as absent: when every member of
  the message's object that selects the version field \<open>jctx\<close> has the value \<open>null\<close>,
  \<open>Decode\<close> takes the fallback and returns the context it was given, the message
  unchanged and a nil error; it does not report a version mismatch.
\<close>

theorem C10_null_version:
  assumes "\<forall>(k, v) \<in> set (objectMembers (tl (bytes_of req))). memberField k = Some ''jctx'' \<longrightarrow> v = ''null''"
  shows "Decode time_Parse ctx method req = (Some ctx, req, None)"
proof (cases "len req = 0 \<or> hd (bytes_of req) \<noteq> CHR ''{''")
  case True
  then show ?thesis by (auto simp: Decode_def)
next
  case False
  then obtain r where r: "bytes_of req = CHR ''{'' # r"
    by (cases "bytes_of req") (auto simp: len_def bytes_of_def split: option.splits)
  have sk: "skipSpace (bytes_of req) = CHR ''{'' # r"
    by (simp add: r skipSpace_def isSpace_def)
  show ?thesis
  proof (cases "json_Unmarshal_wireContext time_Parse (bytes_of req) zeroWireContext")
    case (Inl e)
    then show ?thesis by (simp add: Decode_def)
  next
    case (Inr c)
    then obtain saved where "decodeMembers time_Parse (objectMembers r) (zeroWireContext, None) = Inr (c, saved)"
      by (auto simp: json_Unmarshal_wireContext_def sk split: if_splits sum.splits option.splits)
    moreover have "V zeroWireContext = None" by (simp add: zeroWireContext_def)
    ultimately have "V c = None"
      using decodeMembers_V_None assms r by fastforce
    with Inr show ?thesis by (simp add: Decode_def)
  qed
qed

theorem C10_null_version_witness:
  \<open>objectMembers (tl ''{"jctx": null}'') = [(''jctx'', ''null'')] \<and>
   memberField ''jctx'' = Some ''jctx'' \<and>
   (\<forall>time_Parse.
      Decode time_Parse Background ''m'' (Some ''{"jctx": null}'')
        = (Some Background, Some ''{"jctx": null}'', None))\<close>
proof -
  have a: \<open>objectMembers (tl (bytes_of (Some ''{"jctx": null}''))) = [(''jctx'', ''null'')]\<close>
    by (simp add: scan_defs decode_defs)
  have b: "memberField ''jctx'' = Some ''jctx''"
    by (simp add: decode_defs)
  have \<open>Decode time_Parse Background ''m'' (Some ''{"jctx": null}'')
        = (Some Background, Some ''{"jctx": null}'', None)\<close> for time_Parse
    using C10_null_version [of \<open>Some ''{"jctx": null}''\<close> time_Parse Background "''m''"] a b
    by (simp add: bytes_of_def)
  with a b show ?thesis by (simp add: bytes_of_def)
qed

text \<open>
  Claim C6. Metadata fidelity: for a value \<open>v\<close> that \<open>json.Marshal\<close> serializes to bytes
  from which \<open>json.Unmarshal\<close> rebuilds \<open>v\<close> in a target of the same type (a
  JSON-serializable, structurally comparable value), \<open>WithMetadata(ctx, v)\<close> succeeds on
  every context and \<open>UnmarshalMetadata\<close> on its result yields \<open>v\<close> with a nil error.
\<close>

theorem C6_metadata_fidelity:
  assumes "json_Marshal v = Inr bits" and "json_Unmarshal bits target = (v, None)"
  shows "snd (WithMetadata json_Marshal ctx (Some v)) = None \<and>
         UnmarshalMetadata json_Unmarshal (fst (WithMetadata json_Marshal ctx (Some v))) target
           = (v, None)"
  using assms by (simp add: WithMetadata_def UnmarshalMetadata_def WithValue_metadataKey_def)

theorem C6_metadata_fidelity_witness:
  "sample_Marshal (SampleBool True) = Inr ''true'' \<and>
   sample_Unmarshal ''true'' (SampleBool False) = (SampleBool True, None) \<and>
   UnmarshalMetadata sample_Unmarshal
     (fst (WithMetadata sample_Marshal (metadataCtx Background None) (Some (SampleBool True))))
     (SampleBool False) = (SampleBool True, None)"
proof -
  have a: "sample_Marshal (SampleBool True) = Inr ''true''" by simp
  have b: "sample_Unmarshal ''true'' (SampleBool False) = (SampleBool True, None)"
    by (simp add: sample_Unmarshal_def skipSpace_def scan_defs)
  show ?thesis
    using C6_metadata_fidelity [of sample_Marshal "SampleBool True" "''true''" sample_Unmarshal
        "SampleBool False" "metadataCtx Background None"] a b by simp
qed

section \<open>The scanner on a value inside a container\<close>

lemma kept_simps [simp]:
  "kept scanContinue" "kept scanBeginLiteral" "kept scanBeginObject" "kept scanObjectKey"
  "kept scanObjectValue" "kept scanEndObject" "kept scanBeginArray" "kept scanArrayValue"
  "kept scanEndArray" "\<not> kept scanSkipSpace" "\<not> kept scanEnd" "\<not> kept scanError"
  by (simp_all add: kept_def)

lemma lift_stateEndValue:
  "base \<noteq> [] \<Longrightarrow> kept (fst (stateEndValue c ps)) \<longrightarrow>
   stateEndValue c (ps @ base) = liftr base (stateEndValue c ps)"
  by (cases ps; cases "hd ps")
     (simp_all add: stateEndValue_def stateEndTop_def scan_error_def popParseState_def)

lemma lift_stateBeginValue:
  "m + length base \<le> m' \<Longrightarrow> kept (fst (stateBeginValue m c ps)) \<longrightarrow>
   stateBeginValue m' c (ps @ base) = liftr base (stateBeginValue m c ps)"
  by (simp add: stateBeginValue_def pushParseState_def scan_error_def)

lemma lift_stateBeginValueOrEmpty:
  "base \<noteq> [] \<Longrightarrow> m + length base \<le> m' \<Longrightarrow> kept (fst (stateBeginValueOrEmpty m c ps)) \<longrightarrow>
   stateBeginValueOrEmpty m' c (ps @ base) = liftr base (stateBeginValueOrEmpty m c ps)"
  using lift_stateEndValue [of base c ps] lift_stateBeginValue [of m base m' c ps]
  by (auto simp: stateBeginValueOrEmpty_def)

lemma lift_stateBeginString:
  "kept (fst (stateBeginString c ps)) \<longrightarrow>
   stateBeginString c (ps @ base) = liftr base (stateBeginString c ps)"
  by (simp add: stateBeginString_def scan_error_def)

lemma lift_stateBeginStringOrEmpty:
  "base \<noteq> [] \<Longrightarrow> ps \<noteq> [] \<Longrightarrow> kept (fst (stateBeginStringOrEmpty c ps)) \<longrightarrow>
   stateBeginStringOrEmpty c (ps @ base) = liftr base (stateBeginStringOrEmpty c ps)"
  using lift_stateEndValue [of base c "parseObjectValue # tl ps"] lift_stateBeginString [of c ps base]
  by (auto simp: stateBeginStringOrEmpty_def)

lemma lift_stateInString:
  "kept (fst (stateInString c ps)) \<longrightarrow> stateInString c (ps @ base) = liftr base (stateInString c ps)"
  by (simp add: stateInString_def continue_def scan_error_def)

lemma lift_stateInStringEsc:
  "kept (fst (stateInStringEsc c ps)) \<longrightarrow> stateInStringEsc c (ps @ base) = liftr base (stateInStringEsc c ps)"
  by (simp add: stateInStringEsc_def continue_def scan_error_def)

lemma lift_expect:
  "st \<noteq> EndTop \<Longrightarrow> kept (fst (expect ok st ps)) \<longrightarrow> expect ok st (ps @ base) = liftr base (expect ok st ps)"
  by (simp add: expect_def continue_def scan_error_def)

lemma lift_state0:
  "base \<noteq> [] \<Longrightarrow> kept (fst (state0 c ps)) \<longrightarrow> state0 c (ps @ base) = liftr base (state0 c ps)"
  using lift_stateEndValue [of base c ps]
  by (auto simp: state0_def continue_def)

lemma lift_state1:
  "base \<noteq> [] \<Longrightarrow> kept (fst (state1 c ps)) \<longrightarrow> state1 c (ps @ base) = liftr base (state1 c ps)"
  using lift_state0 [of base c ps]
  by (auto simp: state1_def continue_def)

lemma lift_stateNeg:
  "kept (fst (stateNeg c ps)) \<longrightarrow> stateNeg c (ps @ base) = liftr base (stateNeg c ps)"
  by (simp add: stateNeg_def continue_def scan_error_def)

lemma lift_stateDot0:
  "base \<noteq> [] \<Longrightarrow> kept (fst (stateDot0 c ps)) \<longrightarrow> stateDot0 c (ps @ base) = liftr base (stateDot0 c ps)"
  using lift_stateEndValue [of base c ps]
  by (auto simp: stateDot0_def continue_def)

lemma lift_stateESign:
  "kept (fst (stateESign c ps)) \<longrightarrow> stateESign c (ps @ base) = liftr base (stateESign c ps)"
  using lift_expect [of E0 "isDigit c" ps base] by (simp add: stateESign_def)

lemma lift_stateE:
  "kept (fst (stateE c ps)) \<longrightarrow> stateE c (ps @ base) = liftr base (stateE c ps)"
  using lift_stateESign [of c ps base]
  by (auto simp: stateE_def continue_def)

lemma lift_stateE0:
  "base \<noteq> [] \<Longrightarrow> kept (fst (stateE0 c ps)) \<longrightarrow> stateE0 c (ps @ base) = liftr base (stateE0 c ps)"
  using lift_stateEndValue [of base c ps]
  by (auto simp: stateE0_def continue_def)

lemma not_kept_stateEndTop: "\<not> kept (fst (stateEndTop c ps))"
  by (simp add: stateEndTop_def)

lemma step_lift:
  assumes "wf_scanner (Scanner st ps)" and "base \<noteq> []" and "m + length base \<le> m'"
  shows "kept (fst (scan_step m (Scanner st ps) c)) \<longrightarrow>
         scan_step m' (lift base (Scanner st ps)) c = liftr base (scan_step m (Scanner st ps) c)"
  using assms lift_stateEndValue [of base c ps] lift_stateBeginValue [of m base m' c ps]
    lift_stateBeginValueOrEmpty [of base m m' c ps] lift_stateBeginString [of c ps base]
    lift_stateBeginStringOrEmpty [of base ps c] lift_stateInString [of c ps base]
    lift_stateInStringEsc [of c ps base] lift_state0 [of base c ps] lift_state1 [of base c ps]
    lift_stateNeg [of c ps base] lift_stateDot0 [of base c ps] lift_stateESign [of c ps base]
    lift_stateE [of c ps base] lift_stateE0 [of base c ps] not_kept_stateEndTop [of c ps]
  by (cases st) (simp_all add: lift_expect)

lemmas step_defs = scan_error_def continue_def
  pushParseState_def popParseState_def stateEndTop_def stateEndValue_def stateBeginValue_def
  stateBeginValueOrEmpty_def stateBeginString_def stateBeginStringOrEmpty_def stateInString_def
  stateInStringEsc_def expect_def state0_def state1_def stateNeg_def stateDot0_def stateESign_def
  stateE_def stateE0_def

lemma step_wf:
  "wf_scanner (Scanner st ps) \<Longrightarrow> wf_scanner (snd (scan_step m (Scanner st ps) c))"
  by (cases st; cases ps; cases "hd ps") (simp_all add: step_defs)

lemma step_wf': "wf_scanner s \<Longrightarrow> scan_step m s c = (opc, s') \<Longrightarrow> wf_scanner s'"
  using step_wf [of _ _ m c] by (cases s) (metis snd_conv)

lemma scan_kept_wf: "scan_kept m s bs = Some s' \<Longrightarrow> wf_scanner s \<Longrightarrow> wf_scanner s'"
proof (induction bs arbitrary: s)
  case Nil
  then show ?case by simp
next
  case (Cons c cs)
  obtain opc s1 where st: "scan_step m s c = (opc, s1)" by (cases "scan_step m s c")
  with Cons.prems have "kept opc" and run: "scan_kept m s1 cs = Some s'"
    by (auto split: if_splits)
  from step_wf' [OF Cons.prems(2) st] Cons.IH [OF run] show ?case by simp
qed

lemma scan_kept_lift:
  assumes "scan_kept m s bs = Some s'" and "wf_scanner s" and "base \<noteq> []" and "m + length base \<le> m'"
  shows "scan_kept m' (lift base s) bs = Some (lift base s')"
  using assms(1,2)
proof (induction bs arbitrary: s)
  case Nil
  then show ?case by simp
next
  case (Cons c cs)
  obtain opc s1 where st: "scan_step m s c = (opc, s1)" by (cases "scan_step m s c")
  with Cons.prems have k: "kept opc" and run: "scan_kept m s1 cs = Some s'"
    by (auto split: if_splits)
  obtain stt ps where s: "s = Scanner stt ps" by (cases s)
  have "scan_step m' (lift base s) c = (opc, lift base s1)"
    using step_lift [of stt ps base m m' c] Cons.prems(2) assms(3,4) st k s by simp
  moreover have "scan_kept m' (lift base s1) cs = Some (lift base s')"
    using Cons.IH [OF run step_wf' [OF Cons.prems(2) st]] .
  ultimately show ?case using k by simp
qed

lemma scan_kept_append:
  "scan_kept m s (xs @ ys) = (case scan_kept m s xs of None \<Rightarrow> None | Some s1 \<Rightarrow> scan_kept m s1 ys)"
  by (induction xs arbitrary: s) (auto split: prod.splits)

lemma scan_bytes_append:
  "scan_bytes m s (xs @ ys) = (case scan_bytes m s xs of None \<Rightarrow> None | Some s1 \<Rightarrow> scan_bytes m s1 ys)"
  by (induction xs arbitrary: s) (auto split: prod.splits)

lemma scan_kept_bytes: "scan_kept m s bs = Some s' \<Longrightarrow> scan_bytes m s bs = Some s'"
  by (induction bs arbitrary: s) (auto split: prod.splits if_splits simp: kept_def)

lemma eof_cases:
  assumes "eof m (Scanner st ps) = scanEnd" and "wf_scanner (Scanner st ps)"
  shows "ps = [] \<and> st \<in> {EndValue, EndTop, St1, St0, Dot0, E0}"
  using assms
  by (cases st; cases ps; cases "hd ps") (simp_all add: step_defs isSpace_def split: if_splits)

lemma step_complete:
  "complete s \<Longrightarrow> \<not> kept (fst (scan_step m s c))"
  by (cases s) (auto simp: stateEndValue_def stateEndTop_def split: if_splits)

lemma step_after_value:
  assumes "eof m (Scanner st ps) = scanEnd" and "wf_scanner (Scanner st ps)"
    and "c = CHR '','' \<or> c = CHR ''}''"
  shows "scan_step m' (lift base (Scanner st ps)) c = stateEndValue c base"
  using eof_cases [OF assms(1,2)] assms(3)
  by (auto simp: state1_def state0_def stateDot0_def stateE0_def isDigit_def)

lemma step_after_value_top:
  assumes "eof m (Scanner st ps) = scanEnd" and "wf_scanner (Scanner st ps)"
    and "c = CHR '','' \<or> c = CHR ''}''"
  shows "fst (scan_step m (Scanner st ps) c) = scanEnd"
  using eof_cases [OF assms(1,2)] assms(3)
  by (auto simp: state1_def state0_def stateDot0_def stateE0_def isDigit_def stateEndValue_def
      stateEndTop_def)

lemma valueBytes_kept:
  assumes "scan_kept m s bs = Some s'" and "eof m s' = scanEnd" and "wf_scanner s"
    and "c = CHR '','' \<or> c = CHR ''}''"
  shows "valueBytes m s (bs @ c # r) = (bs, c # r)"
  using assms(1,3)
proof (induction bs arbitrary: s)
  case Nil
  obtain st ps where s: "s = Scanner st ps" by (cases s)
  obtain opc2 s2 where s2: "scan_step m s c = (opc2, s2)"
    by (cases "scan_step m s c")
  from Nil assms(2) s have "eof m (Scanner st ps) = scanEnd" "wf_scanner (Scanner st ps)" by simp_all
  from step_after_value_top [OF this assms(4)] s2 s have "opc2 = scanEnd" by simp
  with s2 show ?case by (cases s2) simp
next
  case (Cons b bs)
  obtain opc st1 ps1 where st: "scan_step m s b = (opc, Scanner st1 ps1)"
    by (cases "scan_step m s b") (metis scanner.exhaust)
  with Cons.prems have k: "kept opc" and run: "scan_kept m (Scanner st1 ps1) bs = Some s'"
    by (auto split: if_splits)
  have wf1: "wf_scanner (Scanner st1 ps1)" using step_wf' [OF Cons.prems(2) st] .
  show ?case
  proof (cases "complete (Scanner st1 ps1)")
    case True
    have "bs = []"
    proof (cases bs)
      case (Cons b' bs')
      with run step_complete [OF True, of m b'] show ?thesis
        by (auto split: prod.splits if_splits)
    qed simp
    with True st k show ?thesis by (auto simp: kept_def)
  next
    case False
    from Cons.IH [OF run wf1] st k False
    show ?thesis by (auto simp: kept_def)
  qed
qed

section \<open>Compaction\<close>

lemma lineSepAt_iff:
  "lineSepAt (c # cs) = (c = CHR 0xE2 \<and> 2 \<le> length cs \<and> cs ! 0 = CHR 0x80 \<and> (cs ! 1 = CHR 0xA8 \<or> cs ! 1 = CHR 0xA9))"
  by (cases cs; cases "tl cs") (auto simp: lineSepAt_def)

subsection \<open>The depth limit only matters where it is hit\<close>

lemma step_mono:
  "m \<le> m' \<Longrightarrow> fst (scan_step m (Scanner st ps) c) \<noteq> scanError \<longrightarrow>
     scan_step m' (Scanner st ps) c = scan_step m (Scanner st ps) c"
  by (cases st)
     (simp_all add: stateBeginValue_def stateBeginValueOrEmpty_def pushParseState_def scan_error_def)

lemma step_mono':
  "m \<le> m' \<Longrightarrow> scan_step m s c = (opc, s') \<Longrightarrow> opc \<noteq> scanError \<Longrightarrow> scan_step m' s c = (opc, s')"
  using step_mono [of m m' _ _ c] by (cases s) (metis fst_conv)

lemma step_space_depth: "isSpace c \<Longrightarrow> scan_step m (Scanner st ps) c = scan_step m' (Scanner st ps) c"
  by (cases st)
     (simp_all add: stateBeginValue_def stateBeginValueOrEmpty_def)

lemma eof_depth: "eof m s = eof m' s"
  using step_space_depth [of "CHR '' ''" m _ _ m'] by (cases s) (simp add: isSpace_def)

lemma scan_kept_mono:
  "m \<le> m' \<Longrightarrow> scan_kept m s bs = Some s' \<Longrightarrow> scan_kept m' s bs = Some s'"
proof (induction bs arbitrary: s)
  case (Cons c cs)
  obtain opc s1 where st: "scan_step m s c = (opc, s1)" by (cases "scan_step m s c")
  with Cons.prems have k: "kept opc" and run: "scan_kept m s1 cs = Some s'"
    by (auto split: if_splits)
  from k have "opc \<noteq> scanError" by auto
  from step_mono' [OF Cons.prems(1) st this] k Cons.IH [OF Cons.prems(1) run] show ?case by simp
qed simp

lemma compactJSON_mono: "m \<le> m' \<Longrightarrow> compactJSON m bs \<Longrightarrow> compactJSON m' bs"
  using scan_kept_mono [of m m' "Scanner BeginValue []" bs] eof_depth [of m _ m']
  by (auto simp: compactJSON_def split: option.splits)

subsection \<open>Compaction leaves compact bytes as they are\<close>

lemma compact_loop_kept:
  assumes "scan_kept m s bs = Some s'" and "eof m s' = scanEnd"
    and "list_all (\<lambda>c. \<not> htmlByte c) bs" and "noLineSep bs"
  shows "compact_loop m s 0 bs = Some bs"
  using assms(1,3,4)
proof (induction bs arbitrary: s)
  case Nil
  with assms(2) show ?case by simp
next
  case (Cons c cs)
  obtain opc s1 where st: "scan_step m s c = (opc, s1)" by (cases "scan_step m s c")
  with Cons.prems have k: "kept opc" and run: "scan_kept m s1 cs = Some s'"
    by (auto split: if_splits)
  from Cons.prems have "\<not> htmlByte c" "\<not> lineSepAt (c # cs)" by simp_all
  then have a: "\<not> (c = CHR ''<'' \<or> c = CHR ''>'' \<or> c = CHR ''&'')"
    and b: "\<not> (c = CHR 0xE2 \<and> 2 \<le> length cs \<and> cs ! 0 = CHR 0x80 \<and> (cs ! 1 = CHR 0xA8 \<or> cs ! 1 = CHR 0xA9))"
    by (simp_all add: htmlByte_def lineSepAt_iff)
  have "compact_loop m s1 0 cs = Some cs" using Cons.IH [OF run] Cons.prems by simp
  with st k a b show ?case by (auto simp: kept_def)
qed

lemma compact_compactJSON: "compactJSON m bs \<Longrightarrow> m \<le> maxNestingDepth \<Longrightarrow> compact bs = Some bs"
  using compactJSON_mono [of m maxNestingDepth bs]
  by (auto simp: compactJSON_def compact_def split: option.splits intro: compact_loop_kept)

subsection \<open>Compaction produces compact bytes\<close>

lemma compact_loop_Error: "compact_loop m (Scanner Error ps) k bs = None"
  by (induction bs arbitrary: k) simp_all

lemma compact_loop_total:
  "scan_bytes m s src = Some s' \<Longrightarrow> eof m s' \<noteq> scanError \<Longrightarrow> compact_loop m s k src \<noteq> None"
  by (induction src arbitrary: s k) (auto split: prod.splits if_splits)

lemma settled_idem: "settled (settled t) = settled t"
  by (cases t) simp

lemma stateEndValue_kept_char:
  "kept (fst (stateEndValue c ps)) \<longrightarrow> \<not> isDigit c \<and> c \<noteq> CHR ''.'' \<and> c \<noteq> CHR ''e'' \<and> c \<noteq> CHR ''E''"
  by (cases ps; cases "hd ps")
     (simp_all add: stateEndValue_def stateEndTop_def scan_error_def isDigit_def)

lemma step_settled:
  assumes "kept (fst (scan_step m (settled (Scanner st ps)) c))"
  shows "scan_step m (Scanner st ps) c = scan_step m (settled (Scanner st ps)) c"
proof (cases "st = St1 \<or> st = St0 \<or> st = Dot0 \<or> st = E0 \<or> st = EndValue")
  case False
  then show ?thesis by simp
next
  case True
  show ?thesis
  proof (cases ps)
    case Nil
    with True assms not_kept_stateEndTop [of c "[]"] show ?thesis by simp
  next
    case (Cons p ps')
    with True assms have "kept (fst (stateEndValue c ps))" by simp
    with stateEndValue_kept_char [of c ps]
    have "\<not> isDigit c" "c \<noteq> CHR ''.''" "c \<noteq> CHR ''e''" "c \<noteq> CHR ''E''" by simp_all
    with True Cons show ?thesis
      by (elim disjE) (simp_all add: state1_def state0_def stateDot0_def stateE0_def)
  qed
qed

lemma step_dropped:
  "fst (scan_step m (Scanner st ps) c) = scanSkipSpace \<or> fst (scan_step m (Scanner st ps) c) = scanEnd \<longrightarrow>
     isSpace c \<and> snd (scan_step m (Scanner st ps) c) = settled (Scanner st ps)
     \<or> (\<exists>ps'. snd (scan_step m (Scanner st ps) c) = Scanner Error ps')"
  by (cases st; cases ps; cases "hd ps") (simp_all add: step_defs)

lemma eof_settled: "eof m (settled t) \<noteq> scanError \<Longrightarrow> eof m t = scanEnd"
  by (cases t; cases "case t of Scanner st ps \<Rightarrow> st"; cases "case t of Scanner st ps \<Rightarrow> ps")
     (auto simp: step_defs isSpace_def isDigit_def split: if_splits)

lemma eof_not_error: "eof m t \<noteq> scanError \<Longrightarrow> eof m t = scanEnd"
  by (cases t) (auto split: prod.splits scanner.splits if_splits)

lemma stateEndValue_kept_only:
  "kept (fst (stateEndValue c ps)) \<longrightarrow> c = CHR '','' \<or> c = CHR '':'' \<or> c = CHR ''}'' \<or> c = CHR '']''"
  by (cases ps; cases "hd ps")
     (simp_all add: stateEndValue_def stateEndTop_def scan_error_def)

lemmas step_defs' = scan_error_def continue_def pushParseState_def stateBeginValue_def
  stateBeginValueOrEmpty_def stateBeginString_def stateBeginStringOrEmpty_def stateInString_def
  stateInStringEsc_def expect_def state0_def state1_def stateNeg_def stateDot0_def stateESign_def
  stateE_def stateE0_def isSpace_def isHex_def isDigit_def isDigit19_def

lemma lt_kept:
  "kept (fst (scan_step m (Scanner st ps) (CHR ''<''))) \<longrightarrow>
     st = InString \<and> scan_step m (Scanner st ps) (CHR ''<'') = (scanContinue, Scanner InString ps)"
  using stateEndValue_kept_only [of "CHR ''<''" ps] not_kept_stateEndTop [of "CHR ''<''" ps]
  by (cases st) (simp_all add: step_defs')

lemma gt_kept:
  "kept (fst (scan_step m (Scanner st ps) (CHR ''>''))) \<longrightarrow>
     st = InString \<and> scan_step m (Scanner st ps) (CHR ''>'') = (scanContinue, Scanner InString ps)"
  using stateEndValue_kept_only [of "CHR ''>''" ps] not_kept_stateEndTop [of "CHR ''>''" ps]
  by (cases st) (simp_all add: step_defs')

lemma amp_kept:
  "kept (fst (scan_step m (Scanner st ps) (CHR ''&''))) \<longrightarrow>
     st = InString \<and> scan_step m (Scanner st ps) (CHR ''&'') = (scanContinue, Scanner InString ps)"
  using stateEndValue_kept_only [of "CHR ''&''" ps] not_kept_stateEndTop [of "CHR ''&''" ps]
  by (cases st) (simp_all add: step_defs')

lemma E2_kept:
  "kept (fst (scan_step m (Scanner st ps) (CHR 0xE2))) \<longrightarrow>
     st = InString \<and> scan_step m (Scanner st ps) (CHR 0xE2) = (scanContinue, Scanner InString ps)"
  using stateEndValue_kept_only [of "CHR 0xE2" ps] not_kept_stateEndTop [of "CHR 0xE2" ps]
  by (cases st) (simp_all add: step_defs')

lemma step_dropped':
  assumes "scan_step m s c = (opc, s1)" and "\<not> kept opc" and "opc \<noteq> scanError"
  shows "isSpace c \<and> s1 = settled s \<or> (\<exists>ps'. s1 = Scanner Error ps')"
proof -
  obtain st ps where s: "s = Scanner st ps" by (cases s)
  from assms(2,3) have d: "opc = scanSkipSpace \<or> opc = scanEnd" by (cases opc) simp_all
  have "fst (scan_step m s c) = opc" "snd (scan_step m s c) = s1" using assms(1) by simp_all
  with step_dropped [of m st ps c, folded s] d show ?thesis by metis
qed

lemma html_kept:
  assumes "htmlByte c" and "scan_step m (Scanner st ps) c = (opc, s1)" and "kept opc"
  shows "st = InString \<and> opc = scanContinue \<and> s1 = Scanner InString ps"
  using assms lt_kept [of m st ps] gt_kept [of m st ps] amp_kept [of m st ps]
  by (auto simp: htmlByte_def)

lemma not_space_html: "htmlByte c \<Longrightarrow> \<not> isSpace c"
  by (auto simp: htmlByte_def isSpace_def)

lemma scan_kept_escape:
  assumes "isHex h1" and "isHex h2" and "isHex h3" and "isHex h4"
  shows "scan_kept m (Scanner InString ps) [CHR 0x5C, CHR ''u'', h1, h2, h3, h4] = Some (Scanner InString ps)"
  using assms by (simp add: stateInString_def stateInStringEsc_def continue_def expect_def)

lemma compact_loop_html:
  assumes "htmlByte c" and "compact_loop m (Scanner st ps) 0 (c # cs) = Some out"
  shows "st = InString \<and>
         (\<exists>out1. out = [CHR 0x5C, CHR ''u'', CHR ''0'', CHR ''0'', hexDigit (of_char c div 16),
                        hexDigit (of_char c mod 16)] @ out1
                 \<and> compact_loop m (Scanner InString ps) 0 cs = Some out1)"
proof -
  obtain opc s1 where st: "scan_step m (Scanner st ps) c = (opc, s1)"
    by (cases "scan_step m (Scanner st ps) c")
  from assms(2) st have ne: "opc \<noteq> scanError" by (auto split: if_splits)
  from assms st ne have run: "map_option (\<lambda>w. [CHR 0x5C, CHR ''u'', CHR ''0'', CHR ''0'',
      hexDigit (of_char c div 16), hexDigit (of_char c mod 16)] @ w) (compact_loop m s1 0 cs) = Some out"
    by (simp add: htmlByte_def)
  show ?thesis
  proof (cases "kept opc")
    case True
    from html_kept [OF assms(1) st True] run show ?thesis by auto
  next
    case False
    from step_dropped' [OF st False ne] not_space_html [OF assms(1)]
    obtain ps' where "s1 = Scanner Error ps'" by auto
    with run show ?thesis by (simp add: compact_loop_Error)
  qed
qed

lemma compact_loop_lineSep:
  assumes "e = CHR 0xA8 \<or> e = CHR 0xA9"
    and "compact_loop m (Scanner st ps) 0 (CHR 0xE2 # CHR 0x80 # e # r) = Some out"
  shows "st = InString \<and>
         (\<exists>out1. out = [CHR 0x5C, CHR ''u'', CHR ''2'', CHR ''0'', CHR ''2'', hexDigit (of_char e mod 16)] @ out1
                 \<and> compact_loop m (Scanner InString ps) 0 r = Some out1)"
proof -
  obtain opc s1 where st: "scan_step m (Scanner st ps) (CHR 0xE2) = (opc, s1)"
    by (cases "scan_step m (Scanner st ps) (CHR 0xE2)")
  from assms(2) st have ne: "opc \<noteq> scanError" by (auto split: if_splits)
  from assms st ne have run: "map_option (\<lambda>w. [CHR 0x5C, CHR ''u'', CHR ''2'', CHR ''0'', CHR ''2'',
      hexDigit (of_char e mod 16)] @ w) (compact_loop m s1 2 (CHR 0x80 # e # r)) = Some out"
    by auto
  show ?thesis
  proof (cases "kept opc")
    case True
    with E2_kept [of m st ps] st have i: "st = InString" "s1 = Scanner InString ps" by simp_all
    have "compact_loop m (Scanner InString ps) 2 (CHR 0x80 # e # r) = compact_loop m (Scanner InString ps) 0 r"
      using assms(1) by (auto simp: stateInString_def continue_def)
    with run i show ?thesis by auto
  next
    case False
    have "\<not> isSpace (CHR 0xE2)" by (simp add: isSpace_def)
    with step_dropped' [OF st False ne]
    obtain ps' where "s1 = Scanner Error ps'" by auto
    with run show ?thesis by (simp add: compact_loop_Error)
  qed
qed

lemma compact_loop_plain:
  assumes "\<not> htmlByte c" and "\<not> lineSepAt (c # cs)"
    and "compact_loop m s 0 (c # cs) = Some out" and "scan_step m s c = (opc, s1)"
  shows "(kept opc \<and> (\<exists>out1. out = c # out1 \<and> compact_loop m s1 0 cs = Some out1))
         \<or> (\<not> kept opc \<and> isSpace c \<and> s1 = settled s \<and> compact_loop m s1 0 cs = Some out)"
proof -
  from assms(3,4) have ne: "opc \<noteq> scanError" by (auto split: if_splits)
  from assms(1,2) have a: "\<not> (c = CHR ''<'' \<or> c = CHR ''>'' \<or> c = CHR ''&'')"
    and b: "\<not> (c = CHR 0xE2 \<and> 2 \<le> length cs \<and> cs ! 0 = CHR 0x80 \<and> (cs ! 1 = CHR 0xA8 \<or> cs ! 1 = CHR 0xA9))"
    by (simp_all add: htmlByte_def lineSepAt_iff)
  show ?thesis
  proof (cases "kept opc")
    case True
    with assms(3,4) ne a b show ?thesis by (auto simp: kept_def)
  next
    case False
    then have d: "opc = scanSkipSpace \<or> opc = scanEnd" using ne by (cases opc) simp_all
    with assms(3,4) ne a b have run: "compact_loop m s1 0 cs = Some out" by auto
    from step_dropped' [OF assms(4) False ne] run False show ?thesis
      by (auto simp: compact_loop_Error)
  qed
qed

lemma settled_InString: "settled t = Scanner InString ps \<Longrightarrow> t = Scanner InString ps"
  by (cases t) (auto split: if_splits)

lemma html_escape_hex:
  assumes "htmlByte c"
  shows "isHex (hexDigit (of_char c div 16))" "isHex (hexDigit (of_char c mod 16))"
    "\<not> htmlByte (hexDigit (of_char c div 16))" "\<not> htmlByte (hexDigit (of_char c mod 16))"
    "hexDigit (of_char c div 16) \<noteq> CHR 0xE2" "hexDigit (of_char c mod 16) \<noteq> CHR 0xE2"
  using assms by (auto simp: htmlByte_def hexDigit_def isHex_def)

lemma lineSep_escape_hex:
  assumes "e = CHR 0xA8 \<or> e = CHR 0xA9"
  shows "isHex (hexDigit (of_char e mod 16))" "\<not> htmlByte (hexDigit (of_char e mod 16))"
    "hexDigit (of_char e mod 16) \<noteq> CHR 0xE2"
  using assms by (auto simp: htmlByte_def hexDigit_def isHex_def)

lemma lineSepAt_E: "lineSepAt s \<Longrightarrow> \<exists>e r. s = CHR 0xE2 # CHR 0x80 # e # r \<and> (e = CHR 0xA8 \<or> e = CHR 0xA9)"
  by (cases s; cases "tl s"; cases "tl (tl s)") (auto simp: lineSepAt_def)

lemma compact_loop_sim:
  assumes "compact_loop m s 0 src = Some out" and "t = s \<or> settled t = s"
  shows "(\<exists>t'. scan_kept m t out = Some t' \<and> eof m t' = scanEnd) \<and> list_all (\<lambda>c. \<not> htmlByte c) out"
  using assms
proof (induction "length src" arbitrary: src s t out rule: less_induct)
  case less
  show ?case
  proof (cases src)
    case Nil
    with less.prems(1) have "out = []" and e: "eof m s \<noteq> scanError" by (auto split: if_splits)
    from e less.prems(2) have "eof m t = scanEnd" by (auto intro: eof_not_error eof_settled)
    with \<open>out = []\<close> show ?thesis by simp
  next
    case (Cons c cs)
    obtain st ps where s: "s = Scanner st ps" by (cases s)
    consider (html) "htmlByte c" | (sep) "\<not> htmlByte c" "lineSepAt (c # cs)"
      | (plain) "\<not> htmlByte c" "\<not> lineSepAt (c # cs)" by blast
    then show ?thesis
    proof cases
      case html
      from compact_loop_html [OF html less.prems(1) [unfolded Cons s]]
      obtain out1 where st: "st = InString"
        and out: "out = [CHR 0x5C, CHR ''u'', CHR ''0'', CHR ''0'', hexDigit (of_char c div 16),
                        hexDigit (of_char c mod 16)] @ out1"
        and run: "compact_loop m (Scanner InString ps) 0 cs = Some out1" by blast
      from less.prems(2) s st have t: "t = Scanner InString ps" by (auto dest: settled_InString)
      from less.hyps [OF _ run, of "Scanner InString ps"] Cons
      obtain t' where "scan_kept m (Scanner InString ps) out1 = Some t'" "eof m t' = scanEnd"
        and h: "list_all (\<lambda>c. \<not> htmlByte c) out1" by auto
      then have "scan_kept m t out = Some t'"
        unfolding out t scan_kept_append
        using scan_kept_escape [of "CHR ''0''" "CHR ''0''" _ _ m ps] html_escape_hex(1,2) [OF html]
        by (simp add: isHex_def)
      moreover have "list_all (\<lambda>c. \<not> htmlByte c) out"
        unfolding out using h html_escape_hex(3,4) [OF html] by (simp add: htmlByte_def)
      ultimately show ?thesis using \<open>eof m t' = scanEnd\<close> by blast
    next
      case sep
      from lineSepAt_E [OF sep(2)] obtain e r where
        c: "c = CHR 0xE2" and cs: "cs = CHR 0x80 # e # r" and e: "e = CHR 0xA8 \<or> e = CHR 0xA9" by auto
      from compact_loop_lineSep [OF e less.prems(1) [unfolded Cons s c cs]]
      obtain out1 where st: "st = InString"
        and out: "out = [CHR 0x5C, CHR ''u'', CHR ''2'', CHR ''0'', CHR ''2'', hexDigit (of_char e mod 16)] @ out1"
        and run: "compact_loop m (Scanner InString ps) 0 r = Some out1" by blast
      from less.prems(2) s st have t: "t = Scanner InString ps" by (auto dest: settled_InString)
      from less.hyps [OF _ run, of "Scanner InString ps"] Cons cs
      obtain t' where "scan_kept m (Scanner InString ps) out1 = Some t'" "eof m t' = scanEnd"
        and h: "list_all (\<lambda>c. \<not> htmlByte c) out1" by auto
      then have "scan_kept m t out = Some t'"
        unfolding out t scan_kept_append
        using scan_kept_escape [of "CHR ''2''" "CHR ''0''" "CHR ''2''" _ m ps] lineSep_escape_hex(1) [OF e]
        by (simp add: isHex_def)
      moreover have "list_all (\<lambda>c. \<not> htmlByte c) out"
        unfolding out using h lineSep_escape_hex(2) [OF e] by (simp add: htmlByte_def)
      ultimately show ?thesis using \<open>eof m t' = scanEnd\<close> by blast
    next
      case plain
      obtain opc s1 where step: "scan_step m s c = (opc, s1)" by (cases "scan_step m s c")
      from compact_loop_plain [OF plain less.prems(1) [unfolded Cons] step]
      consider (kept) out1 where "kept opc" "out = c # out1" "compact_loop m s1 0 cs = Some out1"
        | (dropped) "\<not> kept opc" "isSpace c" "s1 = settled s" "compact_loop m s1 0 cs = Some out"
        by blast
      then show ?thesis
      proof cases
        case kept
        have tstep: "scan_step m t c = (opc, s1)"
        proof (cases "t = s")
          case True
          with step show ?thesis by simp
        next
          case False
          with less.prems(2) have st: "settled t = s" by simp
          obtain tt tp where t: "t = Scanner tt tp" by (cases t)
          from step kept(1) st t have "kept (fst (scan_step m (settled (Scanner tt tp)) c))" by simp
          from step_settled [OF this] st t step show ?thesis by simp
        qed
        from less.hyps [OF _ kept(3), of s1] Cons
        obtain t' where "scan_kept m s1 out1 = Some t'" "eof m t' = scanEnd"
          and h: "list_all (\<lambda>c. \<not> htmlByte c) out1" by auto
        with tstep kept(1,2) plain(1) show ?thesis by simp
      next
        case dropped
        have "t = s1 \<or> settled t = s1"
          using less.prems(2) dropped(3) settled_idem [of t] by auto
        from less.hyps [OF _ dropped(4) this] Cons show ?thesis by simp
      qed
    qed
  qed
qed

lemma compact_loop_head:
  assumes "compact_loop m (Scanner InString ps) 0 cs = Some (x # out)" and "(0x80::nat) \<le> of_char x"
  shows "\<exists>cs'. cs = x # cs' \<and> compact_loop m (Scanner InString ps) 0 cs' = Some out"
proof (cases cs)
  case Nil
  with assms(1) show ?thesis by (simp split: if_splits)
next
  case (Cons c cs')
  consider (html) "htmlByte c" | (sep) "\<not> htmlByte c" "lineSepAt (c # cs')"
    | (plain) "\<not> htmlByte c" "\<not> lineSepAt (c # cs')" by blast
  then show ?thesis
  proof cases
    case html
    from compact_loop_html [OF html assms(1) [unfolded Cons]] assms(2) show ?thesis by auto
  next
    case sep
    from lineSepAt_E [OF sep(2)] obtain e r where
      c: "c = CHR 0xE2" and cs: "cs' = CHR 0x80 # e # r" and e: "e = CHR 0xA8 \<or> e = CHR 0xA9" by auto
    from compact_loop_lineSep [OF e assms(1) [unfolded Cons c cs]] assms(2) show ?thesis by auto
  next
    case plain
    obtain opc s1 where step: "scan_step m (Scanner InString ps) c = (opc, s1)"
      by (cases "scan_step m (Scanner InString ps) c")
    from compact_loop_plain [OF plain assms(1) [unfolded Cons] step]
    consider (kept) "kept opc" "x = c" "compact_loop m s1 0 cs' = Some out"
      | (dropped) "\<not> kept opc" "isSpace c" "s1 = settled (Scanner InString ps)" by blast
    then show ?thesis
    proof cases
      case kept
      from step kept(2) assms(2) have "s1 = Scanner InString ps"
        by (auto simp: stateInString_def continue_def scan_error_def split: if_splits)
      with kept Cons show ?thesis by simp
    next
      case dropped
      with step show ?thesis
        by (auto simp: stateInString_def continue_def scan_error_def split: if_splits)
    qed
  qed
qed

lemma compact_loop_noLineSep:
  assumes "compact_loop m s 0 src = Some out"
  shows "noLineSep out"
  using assms
proof (induction "length src" arbitrary: src s out rule: less_induct)
  case less
  show ?case
  proof (cases src)
    case Nil
    with less.prems show ?thesis by (auto split: if_splits)
  next
    case (Cons c cs)
    obtain st ps where s: "s = Scanner st ps" by (cases s)
    consider (html) "htmlByte c" | (sep) "\<not> htmlByte c" "lineSepAt (c # cs)"
      | (plain) "\<not> htmlByte c" "\<not> lineSepAt (c # cs)" by blast
    then show ?thesis
    proof cases
      case html
      from compact_loop_html [OF html less.prems [unfolded Cons s]]
      obtain out1 where
        out: "out = [CHR 0x5C, CHR ''u'', CHR ''0'', CHR ''0'', hexDigit (of_char c div 16),
                        hexDigit (of_char c mod 16)] @ out1"
        and run: "compact_loop m (Scanner InString ps) 0 cs = Some out1" by blast
      from less.hyps [OF _ run] Cons have "noLineSep out1" by simp
      then show ?thesis
        unfolding out using html_escape_hex(5,6) [OF html] by (simp add: lineSepAt_iff)
    next
      case sep
      from lineSepAt_E [OF sep(2)] obtain e r where
        c: "c = CHR 0xE2" and cs: "cs = CHR 0x80 # e # r" and e: "e = CHR 0xA8 \<or> e = CHR 0xA9" by auto
      from compact_loop_lineSep [OF e less.prems [unfolded Cons s c cs]]
      obtain out1 where
        out: "out = [CHR 0x5C, CHR ''u'', CHR ''2'', CHR ''0'', CHR ''2'', hexDigit (of_char e mod 16)] @ out1"
        and run: "compact_loop m (Scanner InString ps) 0 r = Some out1" by blast
      from less.hyps [OF _ run] Cons cs have "noLineSep out1" by simp
      then show ?thesis
        unfolding out using lineSep_escape_hex(3) [OF e] by (simp add: lineSepAt_iff)
    next
      case plain
      obtain opc s1 where step: "scan_step m s c = (opc, s1)" by (cases "scan_step m s c")
      from compact_loop_plain [OF plain less.prems [unfolded Cons] step]
      consider (kept) out1 where "kept opc" "out = c # out1" "compact_loop m s1 0 cs = Some out1"
        | (dropped) "\<not> kept opc" "isSpace c" "s1 = settled s" "compact_loop m s1 0 cs = Some out"
        by blast
      then show ?thesis
      proof cases
        case kept
        from less.hyps [OF _ kept(3)] Cons have n1: "noLineSep out1" by simp
        have "\<not> lineSepAt (c # out1)"
        proof
          assume a: "lineSepAt (c # out1)"
          from lineSepAt_E [OF a] obtain e r where
            c: "c = CHR 0xE2" and o: "out1 = CHR 0x80 # e # r" and e: "e = CHR 0xA8 \<or> e = CHR 0xA9"
            by auto
          from E2_kept [of m st ps] step kept(1) s c have s1: "s1 = Scanner InString ps" by simp
          from compact_loop_head [OF kept(3) [unfolded s1 o]]
          obtain cs' where cs: "cs = CHR 0x80 # cs'"
            and r1: "compact_loop m (Scanner InString ps) 0 cs' = Some (e # r)" by auto
          from compact_loop_head [OF r1] e obtain cs'' where "cs' = e # cs''" by auto
          with cs c e plain(2) show False by (simp add: lineSepAt_def)
        qed
        with n1 kept(2) show ?thesis by simp
      next
        case dropped
        from less.hyps [OF _ dropped(4)] Cons show ?thesis by simp
      qed
    qed
  qed
qed

lemma compact_loop_mono:
  "m \<le> m' \<Longrightarrow> compact_loop m s k src = Some out \<Longrightarrow> compact_loop m' s k src = Some out"
proof (induction src arbitrary: s k out)
  case Nil
  then show ?case using eof_depth [of m s m'] by (simp split: if_splits)
next
  case (Cons c cs)
  obtain opc s1 where st: "scan_step m s c = (opc, s1)" by (cases "scan_step m s c")
  with Cons.prems(2) have ne: "opc \<noteq> scanError" by (auto split: if_splits)
  note st' = step_mono' [OF Cons.prems(1) st ne]
  from Cons.prems(2) st st' ne Cons.IH [OF Cons.prems(1)] show ?case
    by (auto split: if_splits)
qed

text \<open>What the encoder writes for valid bytes is compact.\<close>

lemma compact_valid:
  assumes "checkValid m src" and "m \<le> m'"
  shows "\<exists>out. compact_loop m' (Scanner BeginValue []) 0 src = Some out \<and> compactJSON m out"
proof -
  from assms(1) obtain s' where run: "scan_bytes m (Scanner BeginValue []) src = Some s'"
    and e: "eof m s' \<noteq> scanError"
    by (auto simp: checkValid_def split: option.splits)
  from compact_loop_total [OF run e] obtain out where
    out: "compact_loop m (Scanner BeginValue []) 0 src = Some out" by auto
  from compact_loop_sim [OF out, of "Scanner BeginValue []"] compact_loop_noLineSep [OF out]
  have c: "compactJSON m out" by (auto simp: compactJSON_def)
  with compact_loop_mono [OF assms(2) out] show ?thesis by blast
qed

section \<open>The calendar\<close>

lemma divmod_eqI:
  fixes x k q r :: int
  assumes "x = k * q + r" and "0 \<le> r" and "r < k"
  shows "x mod k = r" and "x div k = q"
  using assms by (simp_all add: div_pos_pos_trivial)

lemma isLeap_decomp:
  fixes a n100 n4 n1 :: int
  assumes "0 \<le> n100" "n100 \<le> 3" "0 \<le> n4" "n4 \<le> 24" "0 \<le> n1" "n1 \<le> 3"
  shows "isLeap (400 * a + 100 * n100 + 4 * n4 + n1 + 1) = (n1 = 3 \<and> (n4 \<noteq> 24 \<or> n100 = 3))"
proof -
  let ?y = "400 * a + 100 * n100 + 4 * n4 + n1 + 1"
  show ?thesis
  proof (cases "n1 = 3")
    case False
    have "?y mod 4 = n1 + 1"
      by (rule divmod_eqI(1) [where q = "100 * a + 25 * n100 + n4"]) (use assms False in auto)
    with False assms show ?thesis by (simp add: isLeap_def)
  next
    case n1: True
    have m4: "?y mod 4 = 0"
      by (rule divmod_eqI(1) [where q = "100 * a + 25 * n100 + n4 + 1"]) (use n1 in auto)
    show ?thesis
    proof (cases "n4 = 24")
      case False
      have "?y mod 100 = 4 * n4 + 4"
        by (rule divmod_eqI(1) [where q = "4 * a + n100"]) (use assms n1 False in auto)
      with False assms n1 m4 show ?thesis by (simp add: isLeap_def)
    next
      case n4: True
      have m100: "?y mod 100 = 0"
        by (rule divmod_eqI(1) [where q = "4 * a + n100 + 1"]) (use n1 n4 in auto)
      have m400: "?y mod 400 = (if n100 = 3 then 0 else 100 * n100 + 100)"
      proof (cases "n100 = 3")
        case True
        have "?y mod 400 = 0"
          by (rule divmod_eqI(1) [where q = "a + 1"]) (use n1 n4 True in auto)
        with True show ?thesis by simp
      next
        case False
        have "?y mod 400 = 100 * n100 + 100"
          by (rule divmod_eqI(1) [where q = a]) (use assms n1 n4 False in auto)
        with False show ?thesis by simp
      qed
      show ?thesis using n1 n4 m4 m100 m400 assms by (auto simp: isLeap_def)
    qed
  qed
qed

lemma daysSinceEpoch_decomp:
  fixes a n100 n4 n1 :: int
  assumes "0 \<le> n100" "n100 \<le> 3" "0 \<le> n4" "n4 \<le> 24" "0 \<le> n1" "n1 \<le> 3"
  shows "daysSinceEpoch (400 * a + 100 * n100 + 4 * n4 + n1 + 1) = 146097 * a + 36524 * n100 + 1461 * n4 + 365 * n1"
proof -
  let ?Y = "400 * a + 100 * n100 + 4 * n4 + n1"
  have d4: "?Y div 4 = 100 * a + 25 * n100 + n4"
    by (rule divmod_eqI(2) [where r = n1]) (use assms in auto)
  have d100: "?Y div 100 = 4 * a + n100"
    by (rule divmod_eqI(2) [where r = "4 * n4 + n1"]) (use assms in auto)
  have d400: "?Y div 400 = a"
    by (rule divmod_eqI(2) [where r = "100 * n100 + 4 * n4 + n1"]) (use assms in auto)
  show ?thesis using d4 d100 d400 by (simp add: daysSinceEpoch_def)
qed

text \<open>The year and day of \<open>absYear\<close> are those of the calendar.\<close>

lemma absYear_correct:
  assumes "absYear days = (year, yday)"
  shows "daysSinceEpoch year + yday = days"
    and "0 \<le> yday" and "yday < (if isLeap year then 366 else 365)"
proof -
  define n400 where "n400 = days div 146097"
  define d1 where "d1 = days - 146097 * n400"
  define n100 where "n100 = d1 div 36524"
  define n100' where "n100' = n100 - n100 div 4"
  define d2 where "d2 = d1 - 36524 * n100'"
  define n4 where "n4 = d2 div 1461"
  define d3 where "d3 = d2 - 1461 * n4"
  define n1 where "n1 = d3 div 365"
  define n1' where "n1' = n1 - n1 div 4"
  define yd where "yd = d3 - 365 * n1'"
  have y: "year = 400 * n400 + 100 * n100' + 4 * n4 + n1' + 1" and yd: "yday = yd"
    using assms
    by (simp_all add: absYear_def Let_def n400_def d1_def n100_def n100'_def d2_def n4_def d3_def
        n1_def n1'_def yd_def)
  have d1: "0 \<le> d1" "d1 < 146097"
    unfolding d1_def n400_def by (simp_all add: minus_mult_div_eq_mod)
  have n100: "0 \<le> n100" "n100 \<le> 4" using d1 unfolding n100_def by simp_all
  have n100': "0 \<le> n100'" "n100' \<le> 3" "n100' = (if n100 = 4 then 3 else n100)"
    using n100 unfolding n100'_def by auto
  have d2: "0 \<le> d2" "d2 \<le> 36524" "n100' < 3 \<longrightarrow> d2 < 36524"
    using d1 n100 n100'(3) unfolding d2_def n100_def by (auto split: if_splits)
  have n4: "0 \<le> n4" "n4 \<le> 24" using d2 unfolding n4_def by simp_all
  have d3: "0 \<le> d3" "d3 < 1461" "n4 = 24 \<and> n100' < 3 \<longrightarrow> d3 < 1460"
    using d2 unfolding d3_def n4_def by (simp_all add: minus_mult_div_eq_mod)
  have n1: "0 \<le> n1" "n1 \<le> 4" using d3 unfolding n1_def by simp_all
  have n1': "0 \<le> n1'" "n1' \<le> 3" "n1' = (if n1 = 4 then 3 else n1)"
    using n1 unfolding n1'_def by auto
  have ydb: "0 \<le> yd" "yd \<le> 365" "n1' < 3 \<longrightarrow> yd < 365" "n4 = 24 \<and> n100' < 3 \<longrightarrow> yd < 365"
    using d3 n1 n1'(3) unfolding yd_def n1_def by (auto split: if_splits)
  have "daysSinceEpoch year = 146097 * n400 + 36524 * n100' + 1461 * n4 + 365 * n1'"
    unfolding y using daysSinceEpoch_decomp n100' n4 n1' by simp
  then show "daysSinceEpoch year + yday = days"
    unfolding yd yd_def d3_def d2_def d1_def by simp
  show "0 \<le> yday" using ydb yd by simp
  have "isLeap year = (n1' = 3 \<and> (n4 \<noteq> 24 \<or> n100' = 3))"
    unfolding y using isLeap_decomp n100' n4 n1' by simp
  then show "yday < (if isLeap year then 366 else 365)"
    using ydb yd n1' n100' by auto
qed

lemma daysBefore_simps [simp]:
  "daysBefore 0 = 0" "daysBefore 1 = 31" "daysBefore 2 = 59" "daysBefore 3 = 90" "daysBefore 4 = 120"
  "daysBefore 5 = 151" "daysBefore 6 = 181" "daysBefore 7 = 212" "daysBefore 8 = 243"
  "daysBefore 9 = 273" "daysBefore 10 = 304" "daysBefore 11 = 334" "daysBefore 12 = 365"
  "daysBefore (Suc 0) = 31" "daysBefore (Suc (Suc 0)) = 59" "daysBefore (Suc (Suc (Suc 0))) = 90"
  by (simp_all add: daysBefore_def)

lemma plainMonthDay_case:
  assumes "plainMonthDay d = (m, day)" and "d div 31 = int k" and "d \<le> 364"
    and "daysBefore k \<le> 31 * int k" and "k < 11 \<longrightarrow> 31 * int k + 31 \<le> daysBefore (k + 2)"
    and "k \<le> 11" and "k = 11 \<longrightarrow> daysBefore (k + 1) = 365"
  shows "1 \<le> m \<and> m \<le> 12 \<and> 1 \<le> day \<and> day \<le> daysBefore m - daysBefore (m - 1)
         \<and> daysBefore (m - 1) + (day - 1) = d"
proof -
  have "d = 31 * int k + d mod 31" using assms(2) mult_div_mod_eq [of 31 d] by simp
  moreover have "0 \<le> d mod 31" "d mod 31 < 31" by simp_all
  ultimately have b: "31 * int k \<le> d" "d < 31 * int k + 31" by linarith+
  show ?thesis
  proof (cases "d \<ge> daysBefore (k + 1)")
    case True
    with assms(3,7) have "k < 11" using assms(6) by (cases "k = 11") auto
    with True assms(1,2,5) b show ?thesis
      by (auto simp: plainMonthDay_def Let_def)
  next
    case False
    with assms(1,2,4,6) b show ?thesis
      by (auto simp: plainMonthDay_def Let_def)
  qed
qed

lemma plainMonthDay_correct:
  assumes "0 \<le> d" and "d \<le> 364" and "plainMonthDay d = (m, day)"
  shows "1 \<le> m \<and> m \<le> 12 \<and> 1 \<le> day \<and> day \<le> daysBefore m - daysBefore (m - 1)
         \<and> daysBefore (m - 1) + (day - 1) = d"
proof -
  have "0 \<le> d div 31" using assms(1) by simp
  moreover have "d div 31 \<le> 364 div 31" using assms(2) by (rule zdiv_mono1) simp
  ultimately have "d div 31 = int (nat (d div 31))" "nat (d div 31) \<le> 11" by simp_all
  then obtain k where k: "d div 31 = int k" "k \<le> 11" by blast
  from k(2) have "k = 0 \<or> k = 1 \<or> k = 2 \<or> k = 3 \<or> k = 4 \<or> k = 5 \<or> k = 6 \<or> k = 7 \<or> k = 8
      \<or> k = 9 \<or> k = 10 \<or> k = 11" by arith
  then show ?thesis
    using plainMonthDay_case [OF assms(3) k(1) assms(2)]
    by (elim disjE) simp_all
qed

lemma monthDay_plain:
  "monthDay year yday =
     (if isLeap year \<and> yday = 59 then (2, 29)
      else plainMonthDay (if isLeap year \<and> yday > 59 then yday - 1 else yday))"
  by (simp add: monthDay_def plainMonthDay_def Let_def)

lemma daysBefore_ge:
  assumes "2 \<le> j" and "j \<le> 12"
  shows "59 \<le> daysBefore j"
proof -
  from assms have "j = 2 \<or> j = 3 \<or> j = 4 \<or> j = 5 \<or> j = 6 \<or> j = 7 \<or> j = 8 \<or> j = 9 \<or> j = 10
      \<or> j = 11 \<or> j = 12" by arith
  then show ?thesis by (elim disjE) simp_all
qed

lemma daysIn_simps:
  "daysIn m year = (if m = 2 \<and> isLeap year then 29 else daysBefore m - daysBefore (m - 1))"
  by (simp add: daysIn_def)

lemma monthDay_correct:
  assumes "monthDay year yday = (m, day)" and "0 \<le> yday"
    and "yday < (if isLeap year then 366 else 365)"
  shows "1 \<le> m \<and> m \<le> 12 \<and> 1 \<le> day \<and> day \<le> daysIn m year
         \<and> daysBefore (m - 1) + (if isLeap year \<and> 3 \<le> m then 1 else 0) + (day - 1) = yday"
proof (cases "isLeap year")
  case False
  with assms have p: "plainMonthDay yday = (m, day)" "yday \<le> 364" by (simp_all add: monthDay_plain)
  from plainMonthDay_correct [OF assms(2) p(2) p(1)] False show ?thesis
    by (simp add: daysIn_simps)
next
  case leap: True
  consider "yday < 59" | "yday = 59" | "59 < yday" by linarith
  then show ?thesis
  proof cases
    case 1
    with assms leap have p: "plainMonthDay yday = (m, day)" "yday \<le> 364" by (simp_all add: monthDay_plain)
    note c = plainMonthDay_correct [OF assms(2) p(2) p(1)]
    have "m \<le> 2"
    proof (rule ccontr)
      assume "\<not> m \<le> 2"
      with c have "2 \<le> m - 1" "m - 1 \<le> 12" by auto
      from daysBefore_ge [OF this] c 1 show False by linarith
    qed
    with c leap show ?thesis by (auto simp: daysIn_simps)
  next
    case 2
    with assms leap show ?thesis by (auto simp: monthDay_plain daysIn_simps)
  next
    case 3
    with assms leap have p: "plainMonthDay (yday - 1) = (m, day)" "0 \<le> yday - 1" "yday - 1 \<le> 364"
      by (simp_all add: monthDay_plain)
    note c = plainMonthDay_correct [OF p(2) p(3) p(1)]
    have "3 \<le> m"
    proof (rule ccontr)
      assume "\<not> 3 \<le> m"
      with c have "m = 1 \<or> m = 2" by arith
      with c 3 show False by auto
    qed
    moreover from this have "m \<noteq> 2" by simp
    ultimately show ?thesis using c leap by (simp add: daysIn_simps)
  qed
qed

section \<open>Decimal numbers in the text of a time\<close>

lemma digit_cases:
  assumes "0 \<le> k" and "k \<le> 9"
  shows "digit k \<in> set ''0123456789''"
proof -
  from assms have "k = 0 \<or> k = 1 \<or> k = 2 \<or> k = 3 \<or> k = 4 \<or> k = 5 \<or> k = 6 \<or> k = 7 \<or> k = 8 \<or> k = 9"
    by arith
  then show ?thesis by (elim disjE) (simp_all add: digit_def char_of_def)
qed

lemma isDigit_digit: "0 \<le> k \<Longrightarrow> k \<le> 9 \<Longrightarrow> isDigit (digit k)"
  using digit_cases by (simp add: isDigit_def)

lemma digitVal_digit: "0 \<le> k \<Longrightarrow> k \<le> 9 \<Longrightarrow> digitVal (digit k) = k"
  by (simp add: digitVal_def digit_def of_char_of)

lemma mod10: "0 \<le> (n::int) mod 10" "(n::int) mod 10 \<le> 9"
  by simp_all

lemma split2: "(n::int) mod 100 = 10 * (n div 10 mod 10) + n mod 10"
  using zmod_zmult2_eq [of 10 n 10] by simp

lemma split4:
  fixes n :: int
  shows "n mod 10000 = 1000 * (n div 1000 mod 10) + 100 * (n div 100 mod 10) + 10 * (n div 10 mod 10) + n mod 10"
  using zmod_zmult2_eq [of 10 n 10] zmod_zmult2_eq [of 10 n 100] zmod_zmult2_eq [of 10 n 1000]
  by simp

lemma split9:
  fixes n :: int
  shows "n mod 1000000000 = 100000000 * (n div 100000000 mod 10) + 10000000 * (n div 10000000 mod 10)
     + 1000000 * (n div 1000000 mod 10) + 100000 * (n div 100000 mod 10) + 10000 * (n div 10000 mod 10)
     + 1000 * (n div 1000 mod 10) + 100 * (n div 100 mod 10) + 10 * (n div 10 mod 10) + n mod 10"
proof -
  have h1: "n mod 100 = 10 * (n div 10 mod 10) + n mod 10"
    using zmod_zmult2_eq [of 10 n 10] by simp
  have h2: "n mod 1000 = 100 * (n div 100 mod 10) + n mod 100"
    using zmod_zmult2_eq [of 10 n 100] by simp
  have h3: "n mod 10000 = 1000 * (n div 1000 mod 10) + n mod 1000"
    using zmod_zmult2_eq [of 10 n 1000] by simp
  have h4: "n mod 100000 = 10000 * (n div 10000 mod 10) + n mod 10000"
    using zmod_zmult2_eq [of 10 n 10000] by simp
  have h5: "n mod 1000000 = 100000 * (n div 100000 mod 10) + n mod 100000"
    using zmod_zmult2_eq [of 10 n 100000] by simp
  have h6: "n mod 10000000 = 1000000 * (n div 1000000 mod 10) + n mod 1000000"
    using zmod_zmult2_eq [of 10 n 1000000] by simp
  have h7: "n mod 100000000 = 10000000 * (n div 10000000 mod 10) + n mod 10000000"
    using zmod_zmult2_eq [of 10 n 10000000] by simp
  have h8: "n mod 1000000000 = 100000000 * (n div 100000000 mod 10) + n mod 100000000"
    using zmod_zmult2_eq [of 10 n 100000000] by simp
  show ?thesis by (simp only: h8 h7 h6 h5 h4 h3 h2 h1 add.assoc)
qed

lemma digitVal_mod10: "digitVal (digit (k mod 10)) = k mod 10"
  by (rule digitVal_digit) simp_all

lemma isDigit_mod10: "isDigit (digit (k mod 10))"
  by (rule isDigit_digit) simp_all

lemma atoi_pad2:
  assumes "0 \<le> n" and "n \<le> 99"
  shows "atoi (pad2 n) = n"
proof -
  have "atoi (pad2 n) = 10 * (n div 10 mod 10) + n mod 10"
    by (simp add: atoi_def pad2_def digitVal_mod10)
  also have "\<dots> = n mod 100" by (simp only: split2)
  also have "\<dots> = n" using assms by simp
  finally show ?thesis .
qed

lemma atoi_pad4:
  assumes "0 \<le> n" and "n \<le> 9999"
  shows "atoi (pad4 n) = n"
proof -
  have "atoi (pad4 n) = 1000 * (n div 1000 mod 10) + 100 * (n div 100 mod 10) + 10 * (n div 10 mod 10) + n mod 10"
    by (simp add: atoi_def pad4_def digitVal_mod10)
  also have "\<dots> = n mod 10000" by (simp only: split4)
  also have "\<dots> = n" using assms by simp
  finally show ?thesis .
qed

lemma atoi_pad9:
  assumes "0 \<le> n" and "n < 1000000000"
  shows "atoi (pad9 n) = n"
proof -
  have "atoi (pad9 n) = 100000000 * (n div 100000000 mod 10) + 10000000 * (n div 10000000 mod 10)
     + 1000000 * (n div 1000000 mod 10) + 100000 * (n div 100000 mod 10) + 10000 * (n div 10000 mod 10)
     + 1000 * (n div 1000 mod 10) + 100 * (n div 100 mod 10) + 10 * (n div 10 mod 10) + n mod 10"
    by (simp add: atoi_def pad9_def digitVal_mod10)
  also have "\<dots> = n mod 1000000000" by (simp only: split9)
  also have "\<dots> = n" using assms by simp
  finally show ?thesis .
qed

lemma digits_pad: "list_all isDigit (pad2 n)" "list_all isDigit (pad4 n)" "list_all isDigit (pad9 n)"
  by (simp_all add: pad2_def pad4_def pad9_def isDigit_mod10)

lemma parseUint_pad2:
  "0 \<le> n \<Longrightarrow> n \<le> 99 \<Longrightarrow> lo \<le> n \<Longrightarrow> n \<le> hi \<Longrightarrow> parseUint (pad2 n) lo hi = Some n"
  by (simp add: parseUint_def digits_pad atoi_pad2)

lemma parseUint_pad4:
  "0 \<le> n \<Longrightarrow> n \<le> 9999 \<Longrightarrow> lo \<le> n \<Longrightarrow> n \<le> hi \<Longrightarrow> parseUint (pad4 n) lo hi = Some n"
  by (simp add: parseUint_def digits_pad atoi_pad4)

lemma length_pad [simp]: "length (pad2 n) = 2" "length (pad4 n) = 4" "length (pad9 n) = 9"
  by (simp_all add: pad2_def pad4_def pad9_def)

subsection \<open>The fraction of a second\<close>

lemma atoi_append: "atoi (xs @ ys) = foldl (\<lambda>x c. x * 10 + digitVal c) (atoi xs) ys"
  by (simp add: atoi_def)

lemma atoi_zeros: "foldl (\<lambda>x c. x * 10 + digitVal c) a (replicate k (CHR ''0'')) = a * 10 ^ k"
  by (induction k arbitrary: a) (simp_all add: digitVal_def)

lemma trim_zeros:
  "rev (dropWhile (\<lambda>c. c = CHR ''0'') (rev p)) @ replicate (length (takeWhile (\<lambda>c. c = CHR ''0'') (rev p))) (CHR ''0'') = p"
proof -
  let ?P = "\<lambda>c. c = CHR ''0''"
  have "takeWhile ?P (rev p) = replicate (length (takeWhile ?P (rev p))) (CHR ''0'')"
    by (rule replicate_length_same [symmetric]) (auto dest: set_takeWhileD)
  then have "rev (takeWhile ?P (rev p)) = replicate (length (takeWhile ?P (rev p))) (CHR ''0'')"
    by (metis rev_replicate)
  moreover have "rev (dropWhile ?P (rev p)) @ rev (takeWhile ?P (rev p)) = p"
    by (metis rev_append rev_rev_ident takeWhile_dropWhile_id)
  ultimately show ?thesis by simp
qed

lemma parseNanoseconds_trim:
  assumes "0 \<le> ns" and "ns < 1000000000"
  shows "parseNanoseconds (rev (dropWhile (\<lambda>c. c = CHR ''0'') (rev (pad9 ns)))) = ns"
proof -
  let ?P = "\<lambda>c. c = CHR ''0''"
  let ?ds = "rev (dropWhile ?P (rev (pad9 ns)))"
  let ?k = "length (takeWhile ?P (rev (pad9 ns)))"
  have p: "?ds @ replicate ?k (CHR ''0'') = pad9 ns" by (rule trim_zeros)
  then have "length ?ds + ?k = 9" by (metis length_append length_pad(3) length_replicate)
  then have l: "length ?ds \<le> 9" "9 - length ?ds = ?k" by simp_all
  have "atoi (?ds @ replicate ?k (CHR ''0'')) = atoi ?ds * 10 ^ ?k"
    by (simp only: atoi_append atoi_zeros)
  with p atoi_pad9 [OF assms] have "atoi ?ds * 10 ^ ?k = ns" by simp
  with l show ?thesis by (simp add: parseNanoseconds_def)
qed

lemma plainChar_digit: "isDigit c \<Longrightarrow> plainChar c"
  by (auto simp: isDigit_def plainChar_def)

lemma plain_pad: "list_all plainChar (pad2 n)" "list_all plainChar (pad4 n)"
  using digits_pad(1,2) [of n] by (auto simp: list_all_iff intro: plainChar_digit)

lemma set_trim: "set (rev (dropWhile P (rev p))) \<subseteq> set p"
  using set_dropWhileD [of _ P "rev p"] by auto

lemma digits_trim: "list_all isDigit (rev (dropWhile (\<lambda>c. c = CHR ''0'') (rev (pad9 ns))))"
  using set_trim [of "\<lambda>c. c = CHR ''0''" "pad9 ns"] digits_pad(3) [of ns]
  by (auto simp: list_all_iff)

lemma plain_formatNano: "list_all plainChar (formatNano ns)"
proof -
  have "list_all plainChar (rev (dropWhile (\<lambda>c. c = CHR ''0'') (rev (pad9 ns))))"
    using digits_trim [of ns] plainChar_digit by (simp add: list_all_iff)
  moreover have "plainChar (CHR ''.'')" by (simp add: plainChar_def)
  ultimately show ?thesis by (simp add: formatNano_def Let_def)
qed

lemma span_all:
  "list_all P xs \<Longrightarrow> \<not> P z \<Longrightarrow> takeWhile P (xs @ [z]) = xs \<and> dropWhile P (xs @ [z]) = [z]"
  by (induction xs) simp_all

lemma parse_fraction:
  assumes "0 \<le> ns" and "ns < 1000000000"
  defines "r \<equiv> formatNano ns @ ''Z''"
  defines "hasFrac \<equiv> length r \<ge> 2 \<and> r ! 0 = CHR ''.'' \<and> isDigit (r ! 1)"
  shows "(if hasFrac then parseNanoseconds (takeWhile isDigit (drop 1 r)) else 0) = ns"
    and "(if hasFrac then dropWhile isDigit (drop 1 r) else r) = ''Z''"
proof -
  let ?ds = "rev (dropWhile (\<lambda>c. c = CHR ''0'') (rev (pad9 ns)))"
  have dig: "list_all isDigit ?ds" by (rule digits_trim)
  have pn: "parseNanoseconds ?ds = ns" by (rule parseNanoseconds_trim [OF assms(1,2)])
  have z: "\<not> isDigit (CHR ''Z'')" by (simp add: isDigit_def)
  show "(if hasFrac then parseNanoseconds (takeWhile isDigit (drop 1 r)) else 0) = ns"
    and "(if hasFrac then dropWhile isDigit (drop 1 r) else r) = ''Z''"
  proof (atomize (full), cases "?ds = []")
    case True
    have "r = ''Z''" unfolding r_def formatNano_def Let_def True by simp
    moreover from pn have "parseNanoseconds [] = ns" unfolding True .
    then have "ns = 0" by (simp add: parseNanoseconds_def atoi_def)
    ultimately show "(if hasFrac then parseNanoseconds (takeWhile isDigit (drop 1 r)) else 0) = ns
      \<and> (if hasFrac then dropWhile isDigit (drop 1 r) else r) = ''Z''"
      by (simp add: hasFrac_def)
  next
    case False
    have r: "r = CHR ''.'' # ?ds @ ''Z''"
      unfolding r_def formatNano_def Let_def if_not_P [OF False] by simp
    from False dig have "isDigit (hd ?ds)" by (cases ?ds) simp_all
    with False r have hf: hasFrac by (cases ?ds) (simp_all add: hasFrac_def)
    have "takeWhile isDigit (?ds @ ''Z'') = ?ds" "dropWhile isDigit (?ds @ ''Z'') = ''Z''"
      using span_all [OF dig z] by simp_all
    with hf r pn show "(if hasFrac then parseNanoseconds (takeWhile isDigit (drop 1 r)) else 0) = ns
      \<and> (if hasFrac then dropWhile isDigit (drop 1 r) else r) = ''Z''"
      by simp
  qed
qed

section \<open>A time through its text\<close>

lemma nested_if: "(if H then g (if H then a else b) else c) = (if H then g a else c)"
  by simp

lemma time_text_roundtrip:
  assumes "0 \<le> year" "year \<le> 9999" and "1 \<le> m" "m \<le> 12" and "1 \<le> day" "day \<le> daysIn m year"
    and "0 \<le> hh" "hh \<le> 23" and "0 \<le> mi" "mi \<le> 59" and "0 \<le> ss" "ss \<le> 59"
    and "0 \<le> ns" "ns < 1000000000"
  shows "parseRFC3339 (pad4 year @ ''-'' @ pad2 (int m) @ ''-'' @ pad2 day @ ''T'' @ pad2 hh @ '':''
            @ pad2 mi @ '':'' @ pad2 ss @ formatNano ns @ ''Z'')
         = Some \<lparr>abs_ns = dateSeconds year m day hh mi ss * 1000000000 + ns, zone = 0\<rparr>"
proof -
  let ?b = "pad4 year @ ''-'' @ pad2 (int m) @ ''-'' @ pad2 day @ ''T'' @ pad2 hh @ '':''
            @ pad2 mi @ '':'' @ pad2 ss @ formatNano ns @ ''Z''"
  have len: "\<not> length ?b < 19" by simp
  have t: "take 4 ?b = pad4 year" "take 2 (drop 5 ?b) = pad2 (int m)" "take 2 (drop 8 ?b) = pad2 day"
    "take 2 (drop 11 ?b) = pad2 hh" "take 2 (drop 14 ?b) = pad2 mi" "take 2 (drop 17 ?b) = pad2 ss"
    "drop 19 ?b = formatNano ns @ ''Z''"
    by simp_all
  have n: "?b ! 4 = CHR ''-''" "?b ! 7 = CHR ''-''" "?b ! 10 = CHR ''T''" "?b ! 13 = CHR '':''"
    "?b ! 16 = CHR '':''"
    by (simp_all add: nth_append)
  have dl: "day \<le> 31" using assms(3,4,6)
  proof -
    from assms(3,4) have "m = 1 \<or> m = 2 \<or> m = 3 \<or> m = 4 \<or> m = 5 \<or> m = 6 \<or> m = 7 \<or> m = 8 \<or> m = 9
      \<or> m = 10 \<or> m = 11 \<or> m = 12" by arith
    then have "daysIn m year \<le> 31" by (elim disjE) (simp_all add: daysIn_simps)
    with assms(6) show ?thesis by simp
  qed
  have p: "parseUint (pad4 year) 0 9999 = Some year" "parseUint (pad2 (int m)) 1 12 = Some (int m)"
    "parseUint (pad2 day) 1 (daysIn m year) = Some day" "parseUint (pad2 hh) 0 23 = Some hh"
    "parseUint (pad2 mi) 0 59 = Some mi" "parseUint (pad2 ss) 0 59 = Some ss"
    using assms dl by (simp_all add: parseUint_pad2 parseUint_pad4)
  have z: "parseZone ''Z'' = Some 0" by (simp add: parseZone_def)
  note f = parse_fraction [OF assms(13,14)]
  have f1: "(if length (formatNano ns @ ''Z'') \<ge> 2 \<and> (formatNano ns @ ''Z'') ! 0 = CHR ''.''
                \<and> isDigit ((formatNano ns @ ''Z'') ! 1)
             then parseNanoseconds
                    (if length (formatNano ns @ ''Z'') \<ge> 2 \<and> (formatNano ns @ ''Z'') ! 0 = CHR ''.''
                        \<and> isDigit ((formatNano ns @ ''Z'') ! 1)
                     then takeWhile isDigit (drop 1 (formatNano ns @ ''Z'')) else [])
             else 0) = ns"
    by (subst nested_if) (rule f(1))
  show ?thesis
    unfolding parseRFC3339_def if_not_P [OF len] t n Let_def f1 f(2) p z
    by (simp add: p)
qed

lemma mod60:
  fixes r :: int
  assumes "0 \<le> r" and "r < 86400"
  shows "r div 3600 * 3600 + r div 60 mod 60 * 60 + r mod 60 = r"
    and "0 \<le> r div 3600" "r div 3600 \<le> 23" "0 \<le> r div 60 mod 60" "r div 60 mod 60 \<le> 59"
    "0 \<le> r mod 60" "r mod 60 \<le> 59"
proof -
  have "r mod 3600 = 60 * (r div 60 mod 60) + r mod 60"
    using zmod_zmult2_eq [of 60 r 60] by simp
  moreover have "r = 3600 * (r div 3600) + r mod 3600" by simp
  ultimately show "r div 3600 * 3600 + r div 60 mod 60 * 60 + r mod 60 = r" by linarith
  show "0 \<le> r div 3600" "r div 3600 \<le> 23" using assms by simp_all
  show "0 \<le> r div 60 mod 60" "r div 60 mod 60 \<le> 59" "0 \<le> r mod 60" "r mod 60 \<le> 59"
    by simp_all
qed

text \<open>A time in UTC that \<open>MarshalJSON\<close> accepts is read back by \<open>UnmarshalJSON\<close> as it was.\<close>

lemma Time_MarshalJSON_UTC:
  assumes "zone t = 0" and "Time_MarshalJSON t = Inr T"
  shows "\<exists>body. T = CHR 0x22 # body @ [CHR 0x22] \<and> list_all plainChar body \<and> parseRFC3339 body = Some t"
proof -
  define secs where "secs = abs_ns t div 1000000000"
  define ns where "ns = abs_ns t mod 1000000000"
  define days where "days = secs div 86400"
  define r where "r = secs mod 86400"
  obtain year yday where ay: "absYear days = (year, yday)" by (cases "absYear days")
  obtain m day where md: "monthDay year yday = (m, day)" by (cases "monthDay year yday")
  define body where "body = pad4 year @ ''-'' @ pad2 (int m) @ ''-'' @ pad2 day @ ''T''
      @ pad2 (r div 3600) @ '':'' @ pad2 (r div 60 mod 60) @ '':'' @ pad2 (r mod 60) @ formatNano ns @ ''Z''"
  have M: "Time_MarshalJSON t =
      (if year < 0 \<or> 9999 < year
       then Inl (MarshalerError ''Time.MarshalJSON: year outside of range [0,9999]'')
       else Inr (CHR 0x22 # body @ [CHR 0x22]))"
    unfolding Time_MarshalJSON_def Let_def assms(1)
    using ay md
    by (simp add: secs_def ns_def days_def r_def body_def formatZone_def)
  from assms(2) have yr: "0 \<le> year" "year \<le> 9999" and T: "T = CHR 0x22 # body @ [CHR 0x22]"
    unfolding M by (simp_all split: if_splits)
  note a = absYear_correct [OF ay]
  note c = monthDay_correct [OF md a(2,3)]
  have rb: "0 \<le> r" "r < 86400" by (simp_all add: r_def)
  note h = mod60 [OF rb]
  have nsb: "0 \<le> ns" "ns < 1000000000" by (simp_all add: ns_def)
  have "dateSeconds year m day (r div 3600) (r div 60 mod 60) (r mod 60) = days * 86400 + r"
    using a(1) c h(1) by (simp add: dateSeconds_def)
  also have "\<dots> = secs" by (simp add: days_def r_def)
  finally have ds: "dateSeconds year m day (r div 3600) (r div 60 mod 60) (r mod 60) = secs" .
  from c have cm: "1 \<le> m" "m \<le> 12" "1 \<le> day" "day \<le> daysIn m year" by simp_all
  have "parseRFC3339 body = Some \<lparr>abs_ns = dateSeconds year m day (r div 3600) (r div 60 mod 60) (r mod 60)
            * 1000000000 + ns, zone = 0\<rparr>"
    unfolding body_def
    by (rule time_text_roundtrip [OF yr cm h(2-7) nsb])
  also have "dateSeconds year m day (r div 3600) (r div 60 mod 60) (r mod 60) * 1000000000 + ns = abs_ns t"
    unfolding ds by (simp add: secs_def ns_def)
  finally have "parseRFC3339 body = Some \<lparr>abs_ns = abs_ns t, zone = 0\<rparr>" .
  then have "parseRFC3339 body = Some t" using assms(1) by simp
  moreover have "plainChar (CHR ''-'')" "plainChar (CHR ''T'')" "plainChar (CHR '':'')" "plainChar (CHR ''Z'')"
    by (simp_all add: plainChar_def)
  then have "list_all plainChar body"
    unfolding body_def using plain_pad plain_formatNano by simp
  ultimately show ?thesis using T by blast
qed

section \<open>The envelope as the encoder writes it\<close>

lemma wf_init [simp]: "wf_scanner (Scanner BeginValue [])"
  by simp

lemma compactJSON_run:
  assumes "compactJSON m v"
  obtains s where "scan_kept m (Scanner BeginValue []) v = Some s" and "eof m s = scanEnd" and "wf_scanner s"
  using assms scan_kept_wf [of m "Scanner BeginValue []" v]
  by (auto simp: compactJSON_def split: option.splits)

lemma compactJSON_hd:
  assumes "compactJSON m v"
  shows "v \<noteq> []" and "\<not> isSpace (hd v)"
proof -
  from assms obtain s where run: "scan_kept m (Scanner BeginValue []) v = Some s" and e: "eof m s = scanEnd"
    by (rule compactJSON_run)
  show "v \<noteq> []"
  proof
    assume "v = []"
    with run have "s = Scanner BeginValue []" by simp
    with e show False by (simp add: stateBeginValue_def isSpace_def continue_def)
  qed
  then obtain c cs where v: "v = c # cs" by (cases v) auto
  show "\<not> isSpace (hd v)"
  proof
    assume "isSpace (hd v)"
    with run v show False by (simp add: stateBeginValue_def)
  qed
qed

lemma skipSpace_compactJSON: "compactJSON m v \<Longrightarrow> skipSpace (v @ r) = v @ r"
  using compactJSON_hd [of m v] by (cases v) (simp_all add: skipSpace_def)

lemma valueBytes_compactJSON:
  assumes "compactJSON m v" and "m \<le> maxNestingDepth" and "c = CHR '','' \<or> c = CHR ''}''"
  shows "valueBytes maxNestingDepth (Scanner BeginValue []) (v @ c # r) = (v, c # r)"
proof -
  from compactJSON_mono [OF assms(2,1)] obtain s where
    "scan_kept maxNestingDepth (Scanner BeginValue []) v = Some s" "eof maxNestingDepth s = scanEnd"
    by (rule compactJSON_run)
  then show ?thesis by (rule valueBytes_kept) (simp_all add: assms(3))
qed

subsection \<open>A string of plain characters\<close>

lemma scan_kept_plain:
  "list_all plainChar body \<Longrightarrow> scan_kept m (Scanner InString ps) body = Some (Scanner InString ps)"
  by (induction body) (auto simp: plainChar_def stateInString_def continue_def)

lemma plain_noLineSep: "list_all (\<lambda>c. c \<noteq> CHR 0xE2) s \<Longrightarrow> noLineSep s"
  by (induction s) (auto simp: lineSepAt_iff)

lemma plainChar_not_html: "plainChar c \<Longrightarrow> \<not> htmlByte c \<and> c \<noteq> CHR 0xE2"
  by (auto simp: plainChar_def htmlByte_def)

lemma compactJSON_plain_string:
  assumes "list_all plainChar body"
  shows "compactJSON m (CHR 0x22 # body @ [CHR 0x22])"
proof -
  have "scan_kept m (Scanner BeginValue []) (CHR 0x22 # body @ [CHR 0x22]) = Some (Scanner EndValue [])"
    using scan_kept_plain [OF assms, of m "[]"]
    by (simp add: scan_kept_append stateBeginValue_def isSpace_def stateInString_def continue_def)
  moreover have "eof m (Scanner EndValue []) = scanEnd"
    by (simp add: stateEndValue_def stateEndTop_def isSpace_def)
  moreover have "list_all (\<lambda>c. \<not> htmlByte c) body" "list_all (\<lambda>c. c \<noteq> CHR 0xE2) body"
    using assms plainChar_not_html by (simp_all add: list_all_iff)
  then have "list_all (\<lambda>c. \<not> htmlByte c) (CHR 0x22 # body @ [CHR 0x22])"
    "list_all (\<lambda>c. c \<noteq> CHR 0xE2) (CHR 0x22 # body @ [CHR 0x22])"
    by (simp_all add: htmlByte_def)
  then have "list_all (\<lambda>c. \<not> htmlByte c) (CHR 0x22 # body @ [CHR 0x22])"
    "noLineSep (CHR 0x22 # body @ [CHR 0x22])"
    by (simp_all only: plain_noLineSep)
  ultimately show ?thesis by (simp add: compactJSON_def)
qed

lemma closing_lift:
  assumes "eof m s = scanEnd" and "wf_scanner s"
  shows "closing (lift [parseObjectValue] s)"
proof -
  obtain st ps where s: "s = Scanner st ps" by (cases s)
  from eof_cases [OF assms [unfolded s]] show ?thesis
    by (auto simp: s closing_def)
qed

lemma closing_comma:
  "closing q \<Longrightarrow> scan_step m q (CHR '','') = (scanObjectValue, Scanner BeginString [parseObjectKey])"
  by (cases q) (auto simp: closing_def stateEndValue_def isSpace_def state1_def state0_def stateDot0_def stateE0_def isDigit_def)

lemma closing_brace:
  "closing q \<Longrightarrow> scan_step m q (CHR ''}'') = (scanEndObject, Scanner EndTop [])"
  by (cases q) (auto simp: closing_def stateEndValue_def isSpace_def state1_def state0_def stateDot0_def stateE0_def isDigit_def popParseState_def)

lemma scan_kept_key:
  "wireKey k \<Longrightarrow> scan_kept m (Scanner InString ps) k = Some (Scanner InString ps)"
  by (auto simp: wireKey_def stateInString_def continue_def)

lemma scan_field:
  assumes "closing q" and "wireKey k" and "compactJSON m0 v" and "m0 < m"
  shows "\<exists>q'. scan_kept m q (fieldText (k, v)) = Some q' \<and> closing q'"
proof -
  from assms(3) obtain s where run: "scan_kept m0 (Scanner BeginValue []) v = Some s"
    and e: "eof m0 s = scanEnd" and w: "wf_scanner s"
    by (rule compactJSON_run)
  have "scan_kept m (lift [parseObjectValue] (Scanner BeginValue [])) v = Some (lift [parseObjectValue] s)"
    using run by (rule scan_kept_lift) (use assms(4) in simp_all)
  then have v: "scan_kept m (Scanner BeginValue [parseObjectValue]) v = Some (lift [parseObjectValue] s)"
    by simp
  have "scan_kept m q (fieldText (k, v)) = Some (lift [parseObjectValue] s)"
    using closing_comma [OF assms(1), of m] scan_kept_key [OF assms(2), of m "[parseObjectKey]"] v
    by (simp add: fieldText_def scan_kept_append stateBeginString_def isSpace_def stateInString_def
        continue_def stateEndValue_def)
  with closing_lift [OF e w] show ?thesis by simp
qed

lemma scan_fields:
  assumes "list_all (wireField m0) fs" and "m0 < m" and "closing q"
  shows "\<exists>q'. scan_kept m q (concat (map fieldText fs)) = Some q' \<and> closing q'"
  using assms
proof (induction fs arbitrary: q)
  case Nil
  then show ?case by simp
next
  case (Cons f fs)
  obtain k v where f: "f = (k, v)" by (cases f)
  from Cons.prems f have "wireField m0 (k, v)" by simp
  then have "wireKey k" "compactJSON m0 v" by (simp_all add: wireField_def)
  from scan_field [OF Cons.prems(3) this assms(2)] obtain q1
    where q1: "scan_kept m q (fieldText (k, v)) = Some q1" "closing q1" by blast
  from Cons.IH [OF _ assms(2) q1(2)] Cons.prems(1) obtain q'
    where "scan_kept m q1 (concat (map fieldText fs)) = Some q'" "closing q'" by auto
  with q1 show ?case by (simp add: f scan_kept_append)
qed

lemma envelopeHead_bytes:
  "envelopeHead = [CHR ''{'', CHR 0x22, CHR ''j'', CHR ''c'', CHR ''t'', CHR ''x'', CHR 0x22, CHR '':'', CHR 0x22, CHR ''1'', CHR 0x22]"
  by (simp add: envelopeHead_def encodeString_def wireVersion_def)

lemma scan_envelopeHead:
  "1 \<le> m \<Longrightarrow> scan_kept m (Scanner BeginValue []) envelopeHead = Some (Scanner EndValue [parseObjectValue])"
  by (simp add: envelopeHead_bytes stateBeginValue_def isSpace_def pushParseState_def
      stateBeginStringOrEmpty_def stateBeginString_def stateInString_def continue_def stateEndValue_def)

lemma closing_head: "closing (Scanner EndValue [parseObjectValue])"
  by (simp add: closing_def)

lemma envelope_valid:
  assumes "list_all (wireField m0) fs" and "m0 < m"
  shows "checkValid m (envelopeHead @ concat (map fieldText fs) @ ''}'')"
proof -
  from scan_fields [OF assms closing_head] obtain q
    where q: "scan_kept m (Scanner EndValue [parseObjectValue]) (concat (map fieldText fs)) = Some q" "closing q"
    by blast
  have "1 \<le> m" using assms(2) by simp
  from scan_envelopeHead [OF this] q(1) closing_brace [OF q(2), of m]
  have "scan_kept m (Scanner BeginValue []) (envelopeHead @ concat (map fieldText fs) @ ''}'') = Some (Scanner EndTop [])"
    by (simp add: scan_kept_append)
  then have "scan_bytes m (Scanner BeginValue []) (envelopeHead @ concat (map fieldText fs) @ ''}'') = Some (Scanner EndTop [])"
    by (rule scan_kept_bytes)
  then show ?thesis by (simp add: checkValid_def)
qed

lemma rescanString_quote: "rescanString (CHR 0x22 # r) = ([], r)"
  by (cases r) simp_all

lemma rescanString_key:
  "k = ''jctx'' \<or> wireKey k \<Longrightarrow> rescanString (k @ CHR 0x22 # r) = (k, r)"
  by (auto simp: wireKey_def rescanString_quote)

lemma members_field:
  assumes "k = ''jctx'' \<or> wireKey k" and "compactJSON m v" and "m \<le> maxNestingDepth"
  shows "objectMembers (CHR 0x22 # k @ CHR 0x22 # CHR '':'' # v @ CHR '','' # rest) = (k, v) # objectMembers rest"
    and "objectMembers (CHR 0x22 # k @ CHR 0x22 # CHR '':'' # v @ ''}'') = [(k, v)]"
proof -
  have sp: "skipSpace (v @ r) = v @ r" for r
    using assms(2) by (rule skipSpace_compactJSON)
  have vb: "valueBytes maxNestingDepth (Scanner BeginValue []) (v @ c # r) = (v, c # r)"
    if "c = CHR '','' \<or> c = CHR ''}''" for c r
    using assms(2,3) that by (rule valueBytes_compactJSON)
  show "objectMembers (CHR 0x22 # k @ CHR 0x22 # CHR '':'' # v @ CHR '','' # rest) = (k, v) # objectMembers rest"
    by (subst objectMembers.simps)
       (simp add: skipSpace_def [of "_ # _"] isSpace_def rescanString_key [OF assms(1)] sp vb)
  show "objectMembers (CHR 0x22 # k @ CHR 0x22 # CHR '':'' # v @ ''}'') = [(k, v)]"
    by (subst objectMembers.simps)
       (simp add: skipSpace_def [of "_ # _"] isSpace_def rescanString_key [OF assms(1)] sp vb)
qed

lemma members_fields:
  assumes "list_all (wireField m) fs" and "m \<le> maxNestingDepth"
    and "k = ''jctx'' \<or> wireKey k" and "compactJSON m v"
  shows "objectMembers (CHR 0x22 # k @ CHR 0x22 # CHR '':'' # v @ concat (map fieldText fs) @ ''}'') = (k, v) # fs"
  using assms(1,3,4)
proof (induction fs arbitrary: k v)
  case Nil
  then show ?case using members_field(2) [OF _ _ assms(2)] by simp
next
  case (Cons f fs)
  obtain k' v' where f: "f = (k', v')" by (cases f)
  from Cons.prems(1) f have wf: "wireField m (k', v')" and fs: "list_all (wireField m) fs"
    by simp_all
  from wf fs have kv: "wireKey k'" "compactJSON m v'" "list_all (wireField m) fs"
    by (simp_all add: wireField_def)
  have "objectMembers (CHR 0x22 # k' @ CHR 0x22 # CHR '':'' # v' @ concat (map fieldText fs) @ ''}'') = (k', v') # fs"
    using kv by (intro Cons.IH) simp_all
  then show ?case
    using members_field(1) [OF Cons.prems(2,3) assms(2),
        of "CHR 0x22 # k' @ CHR 0x22 # CHR '':'' # v' @ concat (map fieldText fs) @ ''}''"]
    by (simp add: f fieldText_def [of "(k', v')"])
qed

lemma compactJSON_version: "compactJSON m (encodeString wireVersion)"
  using compactJSON_plain_string [of "''1''" m]
  by (simp add: encodeString_def wireVersion_def plainChar_def)

lemma envelope_members:
  assumes "list_all (wireField m) fs" and "m \<le> maxNestingDepth"
  shows "objectMembers (tl (envelopeHead @ concat (map fieldText fs) @ ''}'')) = (''jctx'', encodeString wireVersion) # fs"
proof -
  have "tl (envelopeHead @ concat (map fieldText fs) @ ''}'')
        = CHR 0x22 # ''jctx'' @ CHR 0x22 # CHR '':'' # encodeString wireVersion @ concat (map fieldText fs) @ ''}''"
    by (simp add: envelopeHead_def encodeString_def)
  then show ?thesis
    using members_fields [OF assms _ compactJSON_version, of "''jctx''"] by simp
qed

lemma memberField_key: "k = ''jctx'' \<or> wireKey k \<Longrightarrow> memberField k = Some k"
  by (auto simp: wireKey_def memberField_def fieldOf_def fieldNames_def)

lemma decodeMembers_append:
  "decodeMembers time_Parse (a @ b) st = (case decodeMembers time_Parse a st of Inl e \<Rightarrow> Inl e | Inr st' \<Rightarrow> decodeMembers time_Parse b st')"
  by (induction a arbitrary: st) (auto split: option.splits sum.splits)

lemma compact_out: "compact src = Some out \<Longrightarrow> compactJSON maxNestingDepth out"
  using compact_loop_sim [of maxNestingDepth "Scanner BeginValue []" src out "Scanner BeginValue []"]
    compact_loop_noLineSep [of maxNestingDepth "Scanner BeginValue []" src out]
  by (auto simp: compact_def compactJSON_def)

lemma encodeString_key: "wireKey k \<Longrightarrow> encodeString k = CHR 0x22 # k @ [CHR 0x22]"
  by (auto simp: wireKey_def encodeString_def)

lemma encodeRawField_fields:
  assumes "encodeRawField name m = Inr x" and "wireKey name"
  shows "x = concat (map fieldText (rawFields name m))"
    and "list_all (wireField maxNestingDepth) (rawFields name m)"
  using assms compact_out [of "bytes_of m"]
  by (auto simp: encodeRawField_def rawFields_def fieldText_def wireField_def encodeString_key
      split: if_splits option.splits)

lemma Time_MarshalJSON_compact:
  assumes "zone t = 0" and "Time_MarshalJSON t = Inr T"
  shows "compactJSON m T" and "Time_UnmarshalJSON time_Parse T = Inr t" and "hd T = CHR 0x22"
proof -
  from Time_MarshalJSON_UTC [OF assms] obtain body where
    T: "T = CHR 0x22 # body @ [CHR 0x22]" and p: "list_all plainChar body"
    and r: "parseRFC3339 body = Some t" by blast
  show "compactJSON m T" unfolding T using p by (rule compactJSON_plain_string)
  show "Time_UnmarshalJSON time_Parse T = Inr t" by (simp add: Time_UnmarshalJSON_def T r)
  show "hd T = CHR 0x22" by (simp add: T)
qed

lemma encodeDeadlineField_fields:
  assumes "encodeDeadlineField d = Inr x" and "\<And>t. d = Some t \<Longrightarrow> zone t = 0"
  shows "x = concat (map fieldText (deadlineFields d))"
    and "list_all (wireField m) (deadlineFields d)"
proof -
  show "x = concat (map fieldText (deadlineFields d))"
  proof (cases d)
    case None
    with assms(1) show ?thesis by (simp add: encodeDeadlineField_def deadlineFields_def)
  next
    case (Some t)
    with assms(1) obtain T where T: "Time_MarshalJSON t = Inr T"
      by (auto simp: encodeDeadlineField_def split: sum.splits)
    from Time_MarshalJSON_compact(1) [OF assms(2) [OF Some] T, of maxNestingDepth]
    have "compact T = Some T" by (rule compact_compactJSON) simp
    with assms(1) Some T show ?thesis
      by (simp add: encodeDeadlineField_def deadlineFields_def fieldText_def encodeString_key wireKey_def)
  qed
  show "list_all (wireField m) (deadlineFields d)"
  proof (cases d)
    case None
    then show ?thesis by (simp add: deadlineFields_def)
  next
    case (Some t)
    show ?thesis
      using Time_MarshalJSON_compact(1) [OF assms(2) [OF Some], of _ m]
      by (auto simp: Some deadlineFields_def wireField_def wireKey_def split: sum.splits)
  qed
qed

lemma json_Marshal_fields:
  assumes "json_Marshal_wireContext c = Inr bits" and "V c = Some wireVersion"
    and "\<And>t. Deadline c = Some t \<Longrightarrow> zone t = 0"
  shows "bits = envelopeHead @ concat (map fieldText (wireFields c)) @ ''}''"
    and "list_all (wireField maxNestingDepth) (wireFields c)"
proof -
  from assms(1) obtain dl pl md where
    dl: "encodeDeadlineField (Deadline c) = Inr dl"
    and pl: "encodeRawField ''payload'' (Payload c) = Inr pl"
    and md: "encodeRawField ''meta'' (Metadata c) = Inr md"
    by (auto simp: json_Marshal_wireContext_def split: sum.splits)
  have k: "wireKey ''payload''" "wireKey ''meta''" by (simp_all add: wireKey_def)
  note d = encodeDeadlineField_fields(1) [OF dl assms(3)]
    encodeDeadlineField_fields(2) [OF dl assms(3), where m = maxNestingDepth]
  note p = encodeRawField_fields [OF pl k(1)]
  note m = encodeRawField_fields [OF md k(2)]
  have "bits = envelopeHead @ dl @ pl @ md @ ''}''"
    using assms(1,2) dl pl md by (simp add: json_Marshal_wireContext_def envelopeHead_def)
  then show "bits = envelopeHead @ concat (map fieldText (wireFields c)) @ ''}''"
    using d(1) p(1) m(1) by (simp add: wireFields_def)
  show "list_all (wireField maxNestingDepth) (wireFields c)"
    using d(2) p(2) m(2) by (simp add: wireFields_def)
qed

lemma Encode_encodeContext:
  "Encode ctx method params =
     (case json_Marshal_wireContext (encodeContext ctx params) of
        Inl err \<Rightarrow> (None, Some err)
      | Inr bits \<Rightarrow> (Some bits, None))"
  by (cases "Context_Deadline ctx"; cases "Value_metadataKey ctx")
     (simp_all add: Encode_def encodeContext_def Let_def)

lemma Encode_fields:
  assumes "Encode ctx method params = (Some bits, None)"
  shows "bits = envelopeHead @ concat (map fieldText (wireFields (encodeContext ctx params))) @ ''}''"
    and "list_all (wireField maxNestingDepth) (wireFields (encodeContext ctx params))"
proof -
  from assms have m: "json_Marshal_wireContext (encodeContext ctx params) = Inr bits"
    by (auto simp: Encode_encodeContext split: sum.splits)
  have v: "V (encodeContext ctx params) = Some wireVersion" by (simp add: encodeContext_def)
  have z: "zone t = 0" if "Deadline (encodeContext ctx params) = Some t" for t
    using that by (auto simp: encodeContext_def UTC_def)
  show "bits = envelopeHead @ concat (map fieldText (wireFields (encodeContext ctx params))) @ ''}''"
    using m v z by (rule json_Marshal_fields(1))
  show "list_all (wireField maxNestingDepth) (wireFields (encodeContext ctx params))"
    using m v z by (rule json_Marshal_fields(2))
qed

lemma Time_MarshalJSON_Year:
  assumes "zone t = 0" and "0 \<le> Year t" and "Year t \<le> 9999"
  shows "\<exists>T. Time_MarshalJSON t = Inr T"
  using assms by (auto simp: Time_MarshalJSON_def Year_def Let_def split: prod.splits)

lemma storeField_version:
  "storeField time_Parse ''jctx'' (encodeString wireVersion) (c, sv) = Inr (c\<lparr>V := Some wireVersion\<rparr>, sv)"
  by (simp add: storeField_def encodeString_def wireVersion_def unquote_def)

lemma decode_deadline_part:
  assumes "\<forall>t. D = Some t \<longrightarrow> zone t = 0 \<and> 0 \<le> Year t \<and> Year t \<le> 9999" and "Deadline c = None"
  shows "decodeMembers time_Parse (deadlineFields D) (c, sv) = Inr (c\<lparr>Deadline := D\<rparr>, sv)"
proof (cases D)
  case None
  with assms(2) show ?thesis by (simp add: deadlineFields_def)
next
  case (Some t)
  from assms(1) Some have z: "zone t = 0" and y: "0 \<le> Year t" "Year t \<le> 9999" by simp_all
  from Time_MarshalJSON_Year [OF z y] obtain T where T: "Time_MarshalJSON t = Inr T" by blast
  note c = Time_MarshalJSON_compact(2,3) [OF z T]
  have k: "memberField ''deadline'' = Some ''deadline''"
    by (rule memberField_key) (simp add: wireKey_def)
  show ?thesis
    using c by (simp add: Some deadlineFields_def T k storeField_def)
qed

lemma decode_payload_part:
  assumes "Payload c = None"
  shows "decodeMembers time_Parse (rawFields ''payload'' m) (c, sv)
         = Inr (c\<lparr>Payload := (if len m = 0 then None else compact (bytes_of m))\<rparr>, sv)"
proof -
  have k: "memberField ''payload'' = Some ''payload''"
    by (rule memberField_key) (simp add: wireKey_def)
  show ?thesis using assms
    by (auto simp: rawFields_def k storeField_def split: option.splits)
qed

lemma decode_meta_part:
  assumes "Metadata c = None"
  shows "decodeMembers time_Parse (rawFields ''meta'' m) (c, sv)
         = Inr (c\<lparr>Metadata := (if len m = 0 then None else compact (bytes_of m))\<rparr>, sv)"
proof -
  have k: "memberField ''meta'' = Some ''meta''"
    by (rule memberField_key) (simp add: wireKey_def)
  show ?thesis using assms
    by (auto simp: rawFields_def k storeField_def split: option.splits)
qed

lemma decode_wireFields:
  assumes "\<forall>t. Deadline c = Some t \<longrightarrow> zone t = 0 \<and> 0 \<le> Year t \<and> Year t \<le> 9999"
  shows "decodeMembers time_Parse ((''jctx'', encodeString wireVersion) # wireFields c) (zeroWireContext, None)
         = Inr (decodedContext c, None)"
proof -
  have k: "memberField ''jctx'' = Some ''jctx''"
    by (rule memberField_key) simp
  define c1 where "c1 = zeroWireContext\<lparr>V := Some wireVersion\<rparr>"
  define c2 where "c2 = c1\<lparr>Deadline := Deadline c\<rparr>"
  define c3 where "c3 = c2\<lparr>Payload := (if len (Payload c) = 0 then None else compact (bytes_of (Payload c)))\<rparr>"
  have d1: "Deadline c1 = None" by (simp add: c1_def zeroWireContext_def)
  have d2: "Payload c2 = None" by (simp add: c2_def c1_def zeroWireContext_def)
  have d3: "Metadata c3 = None" by (simp add: c3_def c2_def c1_def zeroWireContext_def)
  have "decodeMembers time_Parse ((''jctx'', encodeString wireVersion) # wireFields c) (zeroWireContext, None)
        = decodeMembers time_Parse (wireFields c) (c1, None)"
    by (simp add: k storeField_version c1_def)
  also have "\<dots> = decodeMembers time_Parse (rawFields ''payload'' (Payload c) @ rawFields ''meta'' (Metadata c)) (c2, None)"
    unfolding wireFields_def decodeMembers_append [of _ "deadlineFields (Deadline c)"]
      decode_deadline_part [OF assms d1] c2_def by simp
  also have "\<dots> = decodeMembers time_Parse (rawFields ''meta'' (Metadata c)) (c3, None)"
    unfolding decodeMembers_append decode_payload_part [OF d2] c3_def by simp
  also have "\<dots> = Inr (c3\<lparr>Metadata := (if len (Metadata c) = 0 then None else compact (bytes_of (Metadata c)))\<rparr>, None)"
    by (rule decode_meta_part [OF d3])
  also have "c3\<lparr>Metadata := (if len (Metadata c) = 0 then None else compact (bytes_of (Metadata c)))\<rparr> = decodedContext c"
    by (simp add: c3_def c2_def c1_def zeroWireContext_def decodedContext_def)
  finally show ?thesis .
qed

lemma encodeRawField_valid:
  assumes "len m = 0 \<or> checkValid (maxNestingDepth - 1) (bytes_of m)" and "wireKey name"
  shows "\<exists>x. encodeRawField name m = Inr x" and "list_all (wireField (maxNestingDepth - 1)) (rawFields name m)"
proof -
  show "\<exists>x. encodeRawField name m = Inr x"
  proof (cases "len m = 0")
    case True
    then show ?thesis by (simp add: encodeRawField_def)
  next
    case False
    with assms(1) have "checkValid (maxNestingDepth - 1) (bytes_of m)" by simp
    from compact_valid [OF this, of maxNestingDepth] obtain out where "compact (bytes_of m) = Some out"
      by (auto simp: compact_def)
    with False show ?thesis by (simp add: encodeRawField_def)
  qed
  show "list_all (wireField (maxNestingDepth - 1)) (rawFields name m)"
  proof (cases "len m = 0")
    case True
    then show ?thesis by (simp add: rawFields_def)
  next
    case False
    with assms(1) have "checkValid (maxNestingDepth - 1) (bytes_of m)" by simp
    from compact_valid [OF this, of maxNestingDepth] obtain out where
      "compact (bytes_of m) = Some out" "compactJSON (maxNestingDepth - 1) out"
      by (auto simp: compact_def)
    with False assms(2) show ?thesis by (simp add: rawFields_def wireField_def)
  qed
qed

lemma encodeDeadlineField_valid:
  assumes "\<forall>t. D = Some t \<longrightarrow> zone t = 0 \<and> 0 \<le> Year t \<and> Year t \<le> 9999"
  shows "\<exists>x. encodeDeadlineField D = Inr x"
proof (cases D)
  case None
  then show ?thesis by (simp add: encodeDeadlineField_def)
next
  case (Some t)
  from assms Some have z: "zone t = 0" and y: "0 \<le> Year t" "Year t \<le> 9999" by simp_all
  from Time_MarshalJSON_Year [OF z y] obtain T where T: "Time_MarshalJSON t = Inr T" by blast
  from Time_MarshalJSON_compact(1) [OF z T, of maxNestingDepth]
  have "compact T = Some T" by (rule compact_compactJSON) simp
  with Some T show ?thesis by (simp add: encodeDeadlineField_def)
qed

text \<open>A struct with valid fields goes through \<open>json.Marshal\<close> and \<open>json.Unmarshal\<close>.\<close>

lemma wire_round_trip:
  assumes V: "V c = Some wireVersion"
    and D: "\<forall>t. Deadline c = Some t \<longrightarrow> zone t = 0 \<and> 0 \<le> Year t \<and> Year t \<le> 9999"
    and P: "len (Payload c) = 0 \<or> checkValid (maxNestingDepth - 1) (bytes_of (Payload c))"
    and M: "len (Metadata c) = 0 \<or> checkValid (maxNestingDepth - 1) (bytes_of (Metadata c))"
  shows "\<exists>bits. json_Marshal_wireContext c = Inr bits \<and> bits \<noteq> [] \<and> hd bits = CHR ''{'' \<and>
           bits = envelopeHead @ concat (map fieldText (wireFields c)) @ ''}'' \<and>
           objectMembers (tl bits) = (''jctx'', encodeString wireVersion) # wireFields c \<and>
           json_Unmarshal_wireContext time_Parse bits zeroWireContext = Inr (decodedContext c)"
proof -
  have k: "wireKey ''payload''" "wireKey ''meta''" by (simp_all add: wireKey_def)
  from encodeDeadlineField_valid [OF D] obtain dl where dl: "encodeDeadlineField (Deadline c) = Inr dl"
    by blast
  from encodeRawField_valid(1) [OF P k(1)] obtain pl where pl: "encodeRawField ''payload'' (Payload c) = Inr pl"
    by blast
  from encodeRawField_valid(1) [OF M k(2)] obtain md where md: "encodeRawField ''meta'' (Metadata c) = Inr md"
    by blast
  from dl pl md obtain bits where m: "json_Marshal_wireContext c = Inr bits"
    by (simp add: json_Marshal_wireContext_def)
  have z: "zone t = 0" if "Deadline c = Some t" for t using D that by simp
  have bits: "bits = envelopeHead @ concat (map fieldText (wireFields c)) @ ''}''"
    using m V z by (rule json_Marshal_fields(1))
  have f: "list_all (wireField (maxNestingDepth - 1)) (wireFields c)"
    using encodeDeadlineField_fields(2) [OF dl, where m = "maxNestingDepth - 1"] z
      encodeRawField_valid(2) [OF P k(1)] encodeRawField_valid(2) [OF M k(2)]
    by (simp add: wireFields_def)
  have valid: "checkValid maxNestingDepth bits"
    unfolding bits using f by (rule envelope_valid) (simp add: maxNestingDepth_def)
  have mem: "objectMembers (tl bits) = (''jctx'', encodeString wireVersion) # wireFields c"
    unfolding bits using f by (rule envelope_members) simp
  have h: "bits = CHR ''{'' # tl bits"
    unfolding bits by (simp add: envelopeHead_def)
  have "skipSpace bits = CHR ''{'' # tl bits"
    by (subst h) (simp add: skipSpace_def isSpace_def)
  then have "json_Unmarshal_wireContext time_Parse bits zeroWireContext = Inr (decodedContext c)"
    using valid by (simp add: json_Unmarshal_wireContext_def mem decode_wireFields [OF D] del: decodeMembers.simps)
  with m bits mem h show ?thesis by (metis list.sel(1) list.distinct(1))
qed

text \<open>What \<open>Decode\<close> makes of a base context from the metadata and the deadline that an
  envelope carried.\<close>

lemma Decode_decoded:
  assumes "bits \<noteq> []" and "hd bits = CHR ''{''"
    and "json_Unmarshal_wireContext time_Parse bits zeroWireContext = Inr c" and "V c = Some wireVersion"
  shows "Decode time_Parse base method (Some bits) =
           (let ctx1 = (case Metadata c of Some m \<Rightarrow> WithValue_metadataKey base (Some m) | None \<Rightarrow> base);
                ctx2 = (case Deadline c of
                          Some d \<Rightarrow> if \<not> IsZero d then WithDeadline ctx1 (UTC d) else ctx1
                        | None \<Rightarrow> ctx1)
            in (Some ctx2, Payload c, None))"
  using assms by (simp add: Decode_def len_def bytes_of_def)

lemma codec_round_trip:
  assumes P: "len params = 0 \<or> checkValid (maxNestingDepth - 1) (bytes_of params)"
    and M: "case Value_metadataKey ctx of None \<Rightarrow> True
            | Some m \<Rightarrow> len m = 0 \<or> checkValid (maxNestingDepth - 1) (bytes_of m)"
    and D: "case Context_Deadline ctx of None \<Rightarrow> True
            | Some d \<Rightarrow> 0 \<le> Year (UTC d) \<and> Year (UTC d) \<le> 9999"
  shows "\<exists>bits. Encode ctx method params = (Some bits, None) \<and>
           objectMembers (tl bits) = (''jctx'', encodeString wireVersion) # wireFields (encodeContext ctx params) \<and>
           Decode time_Parse base method' (Some bits) =
             (let ctx1 = (case Value_metadataKey ctx of
                            None \<Rightarrow> base
                          | Some m \<Rightarrow> if len m = 0 then base
                                      else WithValue_metadataKey base (compact (bytes_of m)));
                  ctx2 = (case Context_Deadline ctx of
                            None \<Rightarrow> ctx1
                          | Some d \<Rightarrow> if IsZero d then ctx1 else WithDeadline ctx1 (UTC d))
              in (Some ctx2, if len params = 0 then None else compact (bytes_of params), None))"
proof -
  define c where "c = encodeContext ctx params"
  have V: "V c = Some wireVersion" by (simp add: c_def encodeContext_def)
  have Dc: "\<forall>t. Deadline c = Some t \<longrightarrow> zone t = 0 \<and> 0 \<le> Year t \<and> Year t \<le> 9999"
    using D by (auto simp: c_def encodeContext_def UTC_def split: option.splits)
  have Pc: "len (Payload c) = 0 \<or> checkValid (maxNestingDepth - 1) (bytes_of (Payload c))"
    using P by (simp add: c_def encodeContext_def)
  have Mc: "len (Metadata c) = 0 \<or> checkValid (maxNestingDepth - 1) (bytes_of (Metadata c))"
    using M by (auto simp: c_def encodeContext_def len_def split: option.splits)
  from wire_round_trip [OF V Dc Pc Mc] obtain bits where
    m: "json_Marshal_wireContext c = Inr bits" and ne: "bits \<noteq> []" and hd: "hd bits = CHR ''{''"
    and mem: "objectMembers (tl bits) = (''jctx'', encodeString wireVersion) # wireFields c"
    and un: "json_Unmarshal_wireContext time_Parse bits zeroWireContext = Inr (decodedContext c)"
    by blast
  have e: "Encode ctx method params = (Some bits, None)"
    using m by (simp add: Encode_encodeContext c_def)
  have Vd: "V (decodedContext c) = Some wireVersion" by (simp add: decodedContext_def)
  have md: "(case Metadata (decodedContext c) of Some m \<Rightarrow> WithValue_metadataKey base (Some m) | None \<Rightarrow> base)
            = (case Value_metadataKey ctx of
                 None \<Rightarrow> base
               | Some m \<Rightarrow> if len m = 0 then base else WithValue_metadataKey base (compact (bytes_of m)))"
  proof (cases "Value_metadataKey ctx")
    case None
    then show ?thesis by (simp add: decodedContext_def c_def encodeContext_def len_def)
  next
    case (Some m)
    show ?thesis
    proof (cases "len m = 0")
      case True
      with Some show ?thesis by (simp add: decodedContext_def c_def encodeContext_def)
    next
      case False
      with M Some have "checkValid (maxNestingDepth - 1) (bytes_of m)" by simp
      from compact_valid [OF this, of maxNestingDepth] obtain out where "compact (bytes_of m) = Some out"
        by (auto simp: compact_def)
      with Some False show ?thesis by (simp add: decodedContext_def c_def encodeContext_def)
    qed
  qed
  have dd: "Deadline (decodedContext c) = map_option UTC (Context_Deadline ctx)"
    by (simp add: decodedContext_def c_def encodeContext_def)
  have pd: "Payload (decodedContext c) = (if len params = 0 then None else compact (bytes_of params))"
    by (simp add: decodedContext_def c_def encodeContext_def)
  have "Decode time_Parse base method' (Some bits) =
          (let ctx1 = (case Value_metadataKey ctx of
                            None \<Rightarrow> base
                          | Some m \<Rightarrow> if len m = 0 then base
                                      else WithValue_metadataKey base (compact (bytes_of m)));
                  ctx2 = (case Context_Deadline ctx of
                            None \<Rightarrow> ctx1
                          | Some d \<Rightarrow> if IsZero d then ctx1 else WithDeadline ctx1 (UTC d))
              in (Some ctx2, if len params = 0 then None else compact (bytes_of params), None))"
    unfolding Decode_decoded [OF ne hd un Vd] md dd pd
    by (cases "Context_Deadline ctx") (simp_all add: Let_def IsZero_def UTC_def)
  with e mem show ?thesis unfolding c_def by blast
qed

section \<open>The codec on sample values\<close>

lemmas encode_defs = Encode_def json_Marshal_wireContext_def encodeRawField_def
  encodeDeadlineField_def compact_def encodeString_def wireVersion_def len_def bytes_of_def
  hexDigit_def

lemma digit_simps:
  "digit 0 = CHR ''0''" "digit 1 = CHR ''1''" "digit 2 = CHR ''2''" "digit 3 = CHR ''3''"
  "digit 4 = CHR ''4''" "digit 5 = CHR ''5''" "digit 6 = CHR ''6''" "digit 7 = CHR ''7''"
  "digit 8 = CHR ''8''" "digit 9 = CHR ''9''"
  by (simp_all add: digit_def char_of_def)

lemma Time_MarshalJSON_zero:
  \<open>Time_MarshalJSON \<lparr>abs_ns = 0, zone = 0\<rparr> = Inr ''"0001-01-01T00:00:00Z"''\<close>
proof -
  have a: "absYear 0 = (1, 0)"
    by (simp add: absYear_def)
  have md: "monthDay 1 0 = (1, 1)"
    by (simp add: monthDay_def isLeap_def daysBefore_def)
  have fz: "formatNano 0 = []"
    by (simp add: formatNano_def pad9_def digit_simps)
  show ?thesis
    by (simp add: Time_MarshalJSON_def a md fz pad2_def pad4_def formatZone_def digit_simps)
qed

lemma Time_MarshalJSON_sample:
  \<open>Time_MarshalJSON \<lparr>abs_ns = 63393490800000000150, zone = 0\<rparr> = Inr ''"2009-11-10T23:00:00.00000015Z"''\<close>
proof -
  have a: "absYear 733720 = (2009, 313)"
    by (simp add: absYear_def)
  have md: "monthDay 2009 313 = (11, 10)"
    by (simp add: monthDay_def isLeap_def daysBefore_def)
  have fz: "formatNano 150 = ''.00000015''"
    by (simp add: formatNano_def pad9_def digit_simps)
  show ?thesis
    by (simp add: Time_MarshalJSON_def a md fz pad2_def pad4_def formatZone_def digit_simps)
qed

lemma Year_sample: "Year \<lparr>abs_ns = 63393490800000000150, zone = 0\<rparr> = 2009"
  by (simp add: Year_def absYear_def)

lemma Year_zero: "Year \<lparr>abs_ns = 0, zone = 0\<rparr> = 1"
  by (simp add: Year_def absYear_def)

lemma compact_sample: \<open>compact ''[1, 2]'' = Some ''[1,2]''\<close> \<open>compact ''{"a": 1}'' = Some ''{"a":1}''\<close>
  by (simp_all add: compact_def scan_defs)

lemma checkValid_sample:
  \<open>checkValid (maxNestingDepth - 1) ''[1, 2]''\<close> \<open>checkValid (maxNestingDepth - 1) ''{"a": 1}''\<close>
  by (simp_all add: scan_defs)

lemma map_of_wireFields_deadline:
  "map_of ((''jctx'', x) # wireFields c) ''deadline'' =
     (case Deadline c of
        None \<Rightarrow> None
      | Some t \<Rightarrow> (case Time_MarshalJSON t of Inl e \<Rightarrow> None | Inr T \<Rightarrow> Some T))"
  by (auto simp: wireFields_def deadlineFields_def rawFields_def split: option.splits sum.splits)

lemma map_of_wireFields_meta:
  "map_of ((''jctx'', x) # wireFields c) ''meta'' =
     (if len (Metadata c) = 0 then None else compact (bytes_of (Metadata c)))"
  by (auto simp: wireFields_def deadlineFields_def rawFields_def split: option.splits sum.splits)

section \<open>The metadata member of an envelope\<close>

text \<open>
  Claim C4, as the spec states it, fails: after \<open>WithMetadata(ctx, nil)\<close> metadata has been
  attached to the context, yet the envelope that \<open>Encode\<close> produces has no \<open>meta\<close> member
  (the field is \<open>omitempty\<close> and the nil \<open>json.RawMessage\<close> has length 0).
\<close>

theorem C4_counterexample:
  \<open>ever_attached (fst (WithMetadata sample_Marshal Background None)) \<and>
   Encode (fst (WithMetadata sample_Marshal Background None)) ''call'' (Some ''[1]'')
     = (Some ''{"jctx":"1","payload":[1]}'', None)\<close>
  by (simp add: WithMetadata_def WithValue_metadataKey_def encode_defs scan_defs)

text \<open>
  Claim C4, amended. Whenever \<open>Encode\<close> succeeds, the envelope it returns has a member
  \<open>meta\<close> exactly when the metadata value that \<open>ctx.Value(metadataKey{})\<close> yields has
  length greater than 0, and the value of that member is then the compacted form of those
  bytes (white space between tokens removed, \<open><\<close>, \<open>>\<close>, \<open>&\<close>, \<open>U+2028\<close> and
  \<open>U+2029\<close> escaped). The member is left out when no metadata was ever attached and also
  when the attached metadata is nil or empty.
\<close>

theorem C4_meta_member:
  assumes "Encode ctx method params = (Some bits, None)"
  shows "map_of (objectMembers (tl bits)) ''meta'' =
           (case Value_metadataKey ctx of
              None \<Rightarrow> None
            | Some m \<Rightarrow> if len m = 0 then None else compact (bytes_of m))"
proof -
  note f = Encode_fields [OF assms]
  have "objectMembers (tl bits) = (''jctx'', encodeString wireVersion) # wireFields (encodeContext ctx params)"
    unfolding f(1) using f(2) by (rule envelope_members) simp
  then show ?thesis
    by (simp only: map_of_wireFields_meta) (simp add: encodeContext_def len_def split: option.splits)
qed

theorem C4_meta_member_witness:
  \<open>Encode (metadataCtx Background (Some ''{"a": 1}'')) ''call'' (Some ''[1]'')
     = (Some ''{"jctx":"1","payload":[1],"meta":{"a":1}}'', None) \<and>
   map_of (objectMembers (tl ''{"jctx":"1","payload":[1],"meta":{"a":1}}'')) ''meta''
     = Some ''{"a":1}''\<close>
proof -
  have c: \<open>compact ''{"a": 1}'' = Some ''{"a":1}''\<close>
    by (simp add: compact_def scan_defs)
  have e: \<open>Encode (metadataCtx Background (Some ''{"a": 1}'')) ''call'' (Some ''[1]'')
     = (Some ''{"jctx":"1","payload":[1],"meta":{"a":1}}'', None)\<close>
    by (simp add: encode_defs scan_defs)
  from C4_meta_member [OF e] c show ?thesis
    using e by (simp add: len_def bytes_of_def)
qed

section \<open>The round trip through Encode and Decode\<close>

text \<open>
  Claim C1, as the spec states it, fails. The context carries the zero time as its
  deadline and the params hold a space: \<open>Encode\<close> succeeds, and \<open>Decode\<close> of its result
  returns a context without a deadline (\<open>Decode\<close> skips a deadline for which \<open>IsZero\<close>
  holds) and params that are not the bytes given (\<open>json.Marshal\<close> compacts a
  \<open>json.RawMessage\<close>).
\<close>

theorem C1_counterexample:
  \<open>Context_Deadline (timerCtx Background \<lparr>abs_ns = 0, zone = 0\<rparr>) = Some \<lparr>abs_ns = 0, zone = 0\<rparr> \<and>
   Encode (timerCtx Background \<lparr>abs_ns = 0, zone = 0\<rparr>) ''call'' (Some ''[1, 2]'')
     = (Some ''{"jctx":"1","deadline":"0001-01-01T00:00:00Z","payload":[1,2]}'', None) \<and>
   (\<forall>time_Parse.
      Decode time_Parse Background ''call''
        (Some ''{"jctx":"1","deadline":"0001-01-01T00:00:00Z","payload":[1,2]}'')
        = (Some Background, Some ''[1,2]'', None))\<close>
proof -
  have e: \<open>Encode (timerCtx Background \<lparr>abs_ns = 0, zone = 0\<rparr>) ''call'' (Some ''[1, 2]'')
     = (Some ''{"jctx":"1","deadline":"0001-01-01T00:00:00Z","payload":[1,2]}'', None)\<close>
    by (simp add: encode_defs UTC_def Time_MarshalJSON_zero scan_defs)
  have \<open>Decode time_Parse Background ''call''
        (Some ''{"jctx":"1","deadline":"0001-01-01T00:00:00Z","payload":[1,2]}'')
        = (Some Background, Some ''[1,2]'', None)\<close> for time_Parse
    using codec_round_trip [of "Some ''[1, 2]''" "timerCtx Background \<lparr>abs_ns = 0, zone = 0\<rparr>"
        "''call''" time_Parse Background "''call''"] checkValid_sample(1) Year_zero e compact_sample(1)
    by (simp add: IsZero_def UTC_def len_def bytes_of_def)
  with e show ?thesis by simp
qed

text \<open>
  Claim C1, amended. Let the params be empty or one valid JSON value nested less than
  10000 deep, let the metadata stored in the context, if any, be empty or such a value,
  and let the deadline of the context, if any, fall in a year from 0 to 9999 in UTC. Then
  \<open>Encode\<close> succeeds, and \<open>Decode\<close> of its result on a base context returns no error and

  \<^item> as params the compacted form of the bytes given (white space between tokens removed,
    \<open><\<close>, \<open>>\<close>, \<open>&\<close>, \<open>U+2028\<close> and \<open>U+2029\<close> escaped), and nil for empty params;

  \<^item> a context derived from the base context, to which the compacted form of the metadata
    is attached when the metadata is not empty and nothing otherwise, and on which
    \<open>context.WithDeadline\<close> has set the deadline converted to UTC, the same instant,
    unless the deadline is the zero time.
\<close>

theorem C1_round_trip:
  assumes "len params = 0 \<or> checkValid (maxNestingDepth - 1) (bytes_of params)"
    and "case Value_metadataKey ctx of None \<Rightarrow> True
         | Some m \<Rightarrow> len m = 0 \<or> checkValid (maxNestingDepth - 1) (bytes_of m)"
    and "case Context_Deadline ctx of None \<Rightarrow> True
         | Some d \<Rightarrow> 0 \<le> Year (UTC d) \<and> Year (UTC d) \<le> 9999"
  shows "\<exists>bits. Encode ctx method params = (Some bits, None) \<and>
           Decode time_Parse base method' (Some bits) =
             (let ctx1 = (case Value_metadataKey ctx of
                            None \<Rightarrow> base
                          | Some m \<Rightarrow> if len m = 0 then base
                                      else WithValue_metadataKey base (compact (bytes_of m)));
                  ctx2 = (case Context_Deadline ctx of
                            None \<Rightarrow> ctx1
                          | Some d \<Rightarrow> if IsZero d then ctx1 else WithDeadline ctx1 (UTC d))
              in (Some ctx2, if len params = 0 then None else compact (bytes_of params), None))"
  using codec_round_trip [OF assms] by blast

theorem C1_round_trip_witness:
  \<open>Encode (timerCtx (metadataCtx Background (Some ''{"a": 1}'')) \<lparr>abs_ns = 63393490800000000150, zone = 18000\<rparr>)
      ''call'' (Some ''[1, 2]'')
     = (Some ''{"jctx":"1","deadline":"2009-11-10T23:00:00.00000015Z","payload":[1,2],"meta":{"a":1}}'', None) \<and>
   (\<forall>time_Parse.
      Decode time_Parse Background ''call''
        (Some ''{"jctx":"1","deadline":"2009-11-10T23:00:00.00000015Z","payload":[1,2],"meta":{"a":1}}'')
        = (Some (timerCtx (metadataCtx Background (Some ''{"a":1}''))
                   \<lparr>abs_ns = 63393490800000000150, zone = 0\<rparr>),
           Some ''[1,2]'', None))\<close>
proof -
  have e: \<open>Encode (timerCtx (metadataCtx Background (Some ''{"a": 1}'')) \<lparr>abs_ns = 63393490800000000150, zone = 18000\<rparr>)
      ''call'' (Some ''[1, 2]'')
     = (Some ''{"jctx":"1","deadline":"2009-11-10T23:00:00.00000015Z","payload":[1,2],"meta":{"a":1}}'', None)\<close>
    by (simp add: encode_defs UTC_def Time_MarshalJSON_sample scan_defs)
  have \<open>Decode time_Parse Background ''call''
        (Some ''{"jctx":"1","deadline":"2009-11-10T23:00:00.00000015Z","payload":[1,2],"meta":{"a":1}}'')
        = (Some (timerCtx (metadataCtx Background (Some ''{"a":1}''))
                   \<lparr>abs_ns = 63393490800000000150, zone = 0\<rparr>),
           Some ''[1,2]'', None)\<close> for time_Parse
    using C1_round_trip [of \<open>Some ''[1, 2]''\<close>
        \<open>timerCtx (metadataCtx Background (Some ''{"a": 1}'')) \<lparr>abs_ns = 63393490800000000150, zone = 18000\<rparr>\<close>
        \<open>''call''\<close> time_Parse Background \<open>''call''\<close>]
      checkValid_sample Year_sample e compact_sample
    by (simp add: IsZero_def UTC_def len_def bytes_of_def WithDeadline_def WithValue_metadataKey_def)
  with e show ?thesis by simp
qed

section \<open>The deadline in UTC\<close>

text \<open>
  Claim C8, as the spec states it, fails for the zero instant: the deadline
  \<open>0001-01-01T05:00:00+05:00\<close> is encoded in UTC as \<open>0001-01-01T00:00:00Z\<close>, which
  \<open>Decode\<close> reads as the zero time and leaves out, so the context it returns has no
  deadline.
\<close>

theorem C8_counterexample:
  \<open>Context_Deadline (timerCtx Background \<lparr>abs_ns = 0, zone = 18000\<rparr>) = Some \<lparr>abs_ns = 0, zone = 18000\<rparr> \<and>
   Encode (timerCtx Background \<lparr>abs_ns = 0, zone = 18000\<rparr>) ''call'' None
     = (Some ''{"jctx":"1","deadline":"0001-01-01T00:00:00Z"}'', None) \<and>
   (\<forall>time_Parse.
      Decode time_Parse Background ''call'' (Some ''{"jctx":"1","deadline":"0001-01-01T00:00:00Z"}'')
        = (Some Background, None, None)) \<and>
   Context_Deadline Background = None\<close>
proof -
  have e: \<open>Encode (timerCtx Background \<lparr>abs_ns = 0, zone = 18000\<rparr>) ''call'' None
     = (Some ''{"jctx":"1","deadline":"0001-01-01T00:00:00Z"}'', None)\<close>
    by (simp add: encode_defs UTC_def Time_MarshalJSON_zero scan_defs)
  have \<open>Decode time_Parse Background ''call'' (Some ''{"jctx":"1","deadline":"0001-01-01T00:00:00Z"}'')
        = (Some Background, None, None)\<close> for time_Parse
    using codec_round_trip [of None "timerCtx Background \<lparr>abs_ns = 0, zone = 18000\<rparr>" "''call''"
        time_Parse Background "''call''"] Year_zero e
    by (simp add: IsZero_def UTC_def len_def bytes_of_def)
  with e show ?thesis by simp
qed

text \<open>
  Claim C8, amended. Let the deadline of the context, in whatever zone it is expressed,
  be an instant other than the zero time whose year in UTC is from 0 to 9999, let the
  params and the metadata be empty or valid JSON nested less than 10000 deep, and let the
  base context have no deadline before that instant. Then \<open>Encode\<close> succeeds, the
  \<open>deadline\<close> member of the envelope is what \<open>MarshalJSON\<close> gives for the deadline
  converted to UTC, and \<open>Decode\<close> of the envelope returns a context whose deadline is the
  same instant in UTC.
\<close>

theorem C8_deadline_utc:
  assumes "Context_Deadline ctx = Some d" and "\<not> IsZero d"
    and "0 \<le> Year (UTC d) \<and> Year (UTC d) \<le> 9999"
    and "len params = 0 \<or> checkValid (maxNestingDepth - 1) (bytes_of params)"
    and "case Value_metadataKey ctx of None \<Rightarrow> True
         | Some m \<Rightarrow> len m = 0 \<or> checkValid (maxNestingDepth - 1) (bytes_of m)"
    and "case Context_Deadline base of None \<Rightarrow> True | Some cur \<Rightarrow> \<not> Before cur d"
  shows "\<exists>bits T ctx' p.
           Encode ctx method params = (Some bits, None) \<and>
           Time_MarshalJSON (UTC d) = Inr T \<and>
           map_of (objectMembers (tl bits)) ''deadline'' = Some T \<and>
           Decode time_Parse base method' (Some bits) = (Some ctx', p, None) \<and>
           Context_Deadline ctx' = Some \<lparr>abs_ns = abs_ns d, zone = 0\<rparr>"
proof -
  have D: "case Context_Deadline ctx of None \<Rightarrow> True
           | Some d \<Rightarrow> 0 \<le> Year (UTC d) \<and> Year (UTC d) \<le> 9999"
    using assms(1,3) by simp
  define ctx1 where "ctx1 = (case Value_metadataKey ctx of
                            None \<Rightarrow> base
                          | Some m \<Rightarrow> if len m = 0 then base
                                      else WithValue_metadataKey base (compact (bytes_of m)))"
  from codec_round_trip [OF assms(4,5) D, of "method" time_Parse base "method'"] obtain bits where
    e: "Encode ctx method params = (Some bits, None)"
    and mem: "objectMembers (tl bits) = (''jctx'', encodeString wireVersion) # wireFields (encodeContext ctx params)"
    and dec: "Decode time_Parse base method' (Some bits) =
                (Some (WithDeadline ctx1 (UTC d)), if len params = 0 then None else compact (bytes_of params), None)"
    using assms(1,2) by (auto simp: ctx1_def Let_def)
  have z: "zone (UTC d) = 0" by (simp add: UTC_def)
  from Time_MarshalJSON_Year [OF z] assms(3) obtain T where T: "Time_MarshalJSON (UTC d) = Inr T"
    by blast
  have m: "map_of (objectMembers (tl bits)) ''deadline'' = Some T"
    unfolding mem map_of_wireFields_deadline using assms(1) T by (simp add: encodeContext_def)
  have "Context_Deadline ctx1 = Context_Deadline base"
    by (simp add: ctx1_def WithValue_metadataKey_def split: option.splits)
  with assms(6) have "Context_Deadline (WithDeadline ctx1 (UTC d)) = Some (UTC d)"
    by (auto simp: WithDeadline_def Before_def UTC_def split: option.splits)
  moreover have "UTC d = \<lparr>abs_ns = abs_ns d, zone = 0\<rparr>"
    by (simp add: UTC_def)
  ultimately show ?thesis using e T m dec by auto
qed

theorem C8_deadline_utc_witness:
  \<open>Encode (timerCtx Background \<lparr>abs_ns = 63393490800000000150, zone = 18000\<rparr>) ''call'' None
     = (Some ''{"jctx":"1","deadline":"2009-11-10T23:00:00.00000015Z"}'', None) \<and>
   (\<forall>time_Parse.
      Context_Deadline (the (fst (Decode time_Parse Background ''call''
          (Some ''{"jctx":"1","deadline":"2009-11-10T23:00:00.00000015Z"}''))))
        = Some \<lparr>abs_ns = 63393490800000000150, zone = 0\<rparr>)\<close>
proof -
  have e: \<open>Encode (timerCtx Background \<lparr>abs_ns = 63393490800000000150, zone = 18000\<rparr>) ''call'' None
     = (Some ''{"jctx":"1","deadline":"2009-11-10T23:00:00.00000015Z"}'', None)\<close>
    by (simp add: encode_defs UTC_def Time_MarshalJSON_sample scan_defs)
  have \<open>Context_Deadline (the (fst (Decode time_Parse Background ''call''
          (Some ''{"jctx":"1","deadline":"2009-11-10T23:00:00.00000015Z"}''))))
        = Some \<lparr>abs_ns = 63393490800000000150, zone = 0\<rparr>\<close> for time_Parse
    using C8_deadline_utc [of "timerCtx Background \<lparr>abs_ns = 63393490800000000150, zone = 18000\<rparr>"
        "\<lparr>abs_ns = 63393490800000000150, zone = 18000\<rparr>" None Background "''call''" time_Parse
        "''call''"]
      Year_sample e
    by (auto simp: IsZero_def UTC_def len_def)
  with e show ?thesis by simp
qed

end
